theory Spec2Isabelle
  imports Main "HOL-Library.Product_Lexorder"
begin

section \<open>The occupancy grid\<close>

text \<open>
  A cell reference is a pair (row, column) of Python integers. The maze solver
  (AI3.py, Main.py) keeps the pair itself; the pathfinding visualiser (Main (2).py) keeps
  one \<open>GridCells\<close> object per pair, compared by identity, so that the pair stands for
  the object.
\<close>

type_synonym cell = "int \<times> int"

text \<open>
  What a cell holds: AI3.py writes 0, 1, 2, 3 for empty, wall, start, goal; Main.py
  and Main (2).py write the strings \<open>'empty'\<close>, \<open>'wall'\<close>, \<open>'start'\<close>,
  \<open>'goal'\<close>, \<open>'visited'\<close>, \<open>'path'\<close>.
\<close>

datatype cell_type = Empty | Wall | Start | Goal | Visited | Path

text \<open>
  The grid: \<open>self.state\<close> (AI3.py, Main.py) or the \<open>type\<close> fields of
  \<open>Grid.cells\<close> (Main (2).py), a list of rows. The module constants ROWS, COLS
  (10 and 10) and GRID_ROWS, GRID_COLS (20 and 30) are fields, so that one model serves
  the three programs.
\<close>

record grid =
  ROWS :: int
  COLS :: int
  state :: "cell_type list list"

definition wf_grid :: "'a grid_scheme \<Rightarrow> bool" where
  "wf_grid g \<longleftrightarrow> int (length (state g)) = ROWS g \<and>
     list_all (\<lambda>row. int (length row) = COLS g) (state g)"

definition directions :: "(int \<times> int) list" where
  "directions = [(-1, 0), (1, 0), (0, -1), (0, 1)]"

text \<open>
  \<open>get_neighbors\<close> (AI3.py line 171, Main (2).py line 132; the loop of Main.py line
  145 inlines it): up, down, left, right, inside the grid and not a wall. The row is read
  only after the bounds check, so no index is negative.
\<close>

definition get_neighbors :: "'a grid_scheme \<Rightarrow> cell \<Rightarrow> cell list" where
  "get_neighbors g pos =
     (case pos of (r, c) \<Rightarrow>
        filter (\<lambda>(nr, nc). 0 \<le> nr \<and> nr < ROWS g \<and> 0 \<le> nc \<and> nc < COLS g \<and>
                  state g ! nat nr ! nat nc \<noteq> Wall)
          (map (\<lambda>(dr, dc). (r + dr, c + dc)) directions))"

section \<open>Path reconstruction\<close>

text \<open>
  \<open>PathfindingApp.reconstruct_path\<close> (Main (2).py line 387). \<open>came_from\<close> is a
  dictionary whose values are cells or \<open>None\<close> (the start is stored with \<open>None\<close>);
  \<open>came_from.get\<close> answers \<open>None\<close> for a missing key as well. The loop runs
  forever on a cycle that avoids the start, hence the option type: \<open>None\<close> is "does
  not return".
\<close>

type_synonym came_from_map = "cell \<rightharpoonup> cell option"

definition dict_get :: "came_from_map \<Rightarrow> cell \<Rightarrow> cell option" where
  "dict_get came_from c = (case came_from c of None \<Rightarrow> None | Some v \<Rightarrow> v)"

partial_function (option) reconstruct_loop ::
  "cell \<Rightarrow> came_from_map \<Rightarrow> cell option \<Rightarrow> cell list \<Rightarrow> cell list option" where
  "reconstruct_loop start came_from current path =
     (if current = Some start then Some path
      else case current of
             None \<Rightarrow> Some path
           | Some c \<Rightarrow> reconstruct_loop start came_from (dict_get came_from c) (c # path))"

definition reconstruct_path :: "cell \<Rightarrow> cell \<Rightarrow> came_from_map \<Rightarrow> cell list option" where
  "reconstruct_path start goal came_from = reconstruct_loop start came_from (Some goal) []"

text \<open>
  The walk of \<open>MazeSolver.draw_path_with_steps\<close> (AI3.py line 178) reads
  \<open>parent[current]\<close>, which raises \<open>KeyError\<close> on a missing key.
\<close>

datatype py_error = KeyError | TypeError

partial_function (option) draw_path_loop ::
  "(cell \<rightharpoonup> cell) \<Rightarrow> cell \<Rightarrow> cell \<Rightarrow> cell list \<Rightarrow> (py_error + cell list) option" where
  "draw_path_loop parent start current path =
     (if current = start then Some (Inr path)
      else case parent current of
             None \<Rightarrow> Some (Inl KeyError)
           | Some p \<Rightarrow> draw_path_loop parent start p (path @ [current]))"

definition draw_path :: "(cell \<rightharpoonup> cell) \<Rightarrow> cell \<Rightarrow> cell \<Rightarrow> (py_error + cell list) option" where
  "draw_path parent start goal =
     map_option (map_sum id (\<lambda>path. rev (path @ [start]))) (draw_path_loop parent start goal [])"

text \<open>
  A chain of predecessor links: \<open>links came_from p\<close> holds when each cell of \<open>p\<close>
  but the first has its predecessor in \<open>p\<close> just before it.
\<close>

fun links :: "came_from_map \<Rightarrow> cell list \<Rightarrow> bool" where
  "links came_from [] = True"
| "links came_from [c] = True"
| "links came_from (b # c # p) = (dict_get came_from c = Some b \<and> links came_from (c # p))"

text \<open>
  The same for the dictionary \<open>parent\<close> of AI3.py, whose values are cells.
\<close>

fun parent_links :: "(cell \<rightharpoonup> cell) \<Rightarrow> cell list \<Rightarrow> bool" where
  "parent_links parent [] = True"
| "parent_links parent [c] = True"
| "parent_links parent (b # c # p) = (parent c = Some b \<and> parent_links parent (c # p))"

section \<open>The Sudoku solver\<close>

text \<open>
  The board of Main (3).py is a list of nine rows of nine Python integers, 0 for an empty
  cell; \<open>get_board\<close> (line 70) builds it from the text fields and lets through the
  digits 1 to 9 only, without comparing one field with another.
\<close>

type_synonym board = "int list list"

definition is_board :: "board \<Rightarrow> bool" where
  "is_board board \<longleftrightarrow> length board = 9 \<and>
     list_all (\<lambda>row. length row = 9 \<and> list_all (\<lambda>v. 0 \<le> v \<and> v \<le> 9) row) board"

text \<open>The assignment \<open>board[row][col] = v\<close>.\<close>

definition set_cell :: "board \<Rightarrow> nat \<Rightarrow> nat \<Rightarrow> int \<Rightarrow> board" where
  "set_cell board row col v = board[row := (board ! row)[col := v]]"

text \<open>
  \<open>SudokuSolver.is_valid\<close> (line 128): \<open>num\<close> occurs neither in the row, nor in the
  column, nor in the 3 by 3 box of the cell.
\<close>

definition is_valid :: "board \<Rightarrow> nat \<Rightarrow> nat \<Rightarrow> int \<Rightarrow> bool" where
  "is_valid board row col num \<longleftrightarrow>
     \<not> list_ex (\<lambda>i. board ! row ! i = num \<or> board ! i ! col = num) [0..<9] \<and>
     (let start_row = 3 * (row div 3); start_col = 3 * (col div 3)
      in \<not> list_ex (\<lambda>i. list_ex (\<lambda>j. board ! (start_row + i) ! (start_col + j) = num) [0..<3]) [0..<3])"

text \<open>
  \<open>SudokuSolver.solve_board\<close> (line 115). The two outer loops look for the first empty
  cell in row-major order (\<open>find_empty\<close>); the inner loop over \<open>range(1, 10)\<close> is
  \<open>try_nums\<close>, which places a digit, calls the solver again, and resets the cell to 0
  when that call answers \<open>False\<close>. The list is mutated in place, so the model returns the
  board next to the answer. The recursion of the source goes through the board left by
  the inner call; the model bounds its depth by a number, and \<open>None\<close> says that the bound
  was too small (81 empty cells at most, well under Python's recursion limit).
\<close>

definition board_cells :: "(nat \<times> nat) list" where
  "board_cells = List.product [0..<9] [0..<9]"

definition find_empty :: "board \<Rightarrow> (nat \<times> nat) option" where
  "find_empty board = find (\<lambda>(row, col). board ! row ! col = 0) board_cells"

primrec try_nums ::
  "(board \<Rightarrow> (bool \<times> board) option) \<Rightarrow> nat \<Rightarrow> nat \<Rightarrow> int list \<Rightarrow> board \<Rightarrow> (bool \<times> board) option" where
  "try_nums rec row col [] board = Some (False, board)"
| "try_nums rec row col (num # nums) board =
     (if is_valid board row col num then
        (case rec (set_cell board row col num) of
           None \<Rightarrow> None
         | Some (solved, board') \<Rightarrow>
             if solved then Some (True, board')
             else try_nums rec row col nums (set_cell board' row col 0))
      else try_nums rec row col nums board)"

primrec solve_board :: "nat \<Rightarrow> board \<Rightarrow> (bool \<times> board) option" where
  "solve_board 0 = (\<lambda>board. None)"
| "solve_board (Suc depth) = (\<lambda>board.
     case find_empty board of
       None \<Rightarrow> Some (True, board)
     | Some (row, col) \<Rightarrow> try_nums (solve_board depth) row col [1..9] board)"

text \<open>
  The vocabulary of the claim: the number of empty cells; the 27 units (rows, columns,
  boxes); a board is \<open>consistent\<close> when no unit holds a digit twice, empty cells apart;
  it is \<open>filled\<close> when every cell holds a digit from 1 to 9; it
  \<open>satisfies_constraints\<close> when the nine cells of every unit are pairwise different;
  \<open>keeps_givens board board'\<close> when every non-empty cell of \<open>board\<close> has the same
  value in \<open>board'\<close>.
\<close>

definition count_zeros :: "board \<Rightarrow> nat" where
  "count_zeros board = length (filter (\<lambda>(row, col). board ! row ! col = 0) board_cells)"

definition rows_units :: "(nat \<times> nat) list list" where
  "rows_units = map (\<lambda>r. map (\<lambda>c. (r, c)) [0..<9]) [0..<9]"

definition cols_units :: "(nat \<times> nat) list list" where
  "cols_units = map (\<lambda>c. map (\<lambda>r. (r, c)) [0..<9]) [0..<9]"

definition box_units :: "(nat \<times> nat) list list" where
  "box_units = map (\<lambda>(br, bc). map (\<lambda>(i, j). (3 * br + i, 3 * bc + j)) (List.product [0..<3] [0..<3]))
                 (List.product [0..<3] [0..<3])"

definition board_units :: "(nat \<times> nat) list list" where
  "board_units = rows_units @ cols_units @ box_units"

definition consistent :: "board \<Rightarrow> bool" where
  "consistent board \<longleftrightarrow>
     list_all (\<lambda>u. distinct (filter (\<lambda>v. v \<noteq> 0) (map (\<lambda>(r, c). board ! r ! c) u))) board_units"

definition filled :: "board \<Rightarrow> bool" where
  "filled board \<longleftrightarrow> list_all (\<lambda>(r, c). 1 \<le> board ! r ! c \<and> board ! r ! c \<le> 9) board_cells"

definition keeps_givens :: "board \<Rightarrow> board \<Rightarrow> bool" where
  "keeps_givens board board' \<longleftrightarrow>
     list_all (\<lambda>(r, c). board ! r ! c \<noteq> 0 \<longrightarrow> board' ! r ! c = board ! r ! c) board_cells"

definition satisfies_constraints :: "board \<Rightarrow> bool" where
  "satisfies_constraints board \<longleftrightarrow>
     list_all (\<lambda>u. distinct (map (\<lambda>(r, c). board ! r ! c) u)) board_units"

text \<open>Two cells share a unit; what a call of \<open>solve_board\<close> establishes.\<close>

definition same_unit :: "nat \<times> nat \<Rightarrow> nat \<times> nat \<Rightarrow> bool" where
  "same_unit p q \<longleftrightarrow> fst p = fst q \<or> snd p = snd q \<or>
     (fst p div 3 = fst q div 3 \<and> snd p div 3 = snd q div 3)"

definition solve_post :: "board \<Rightarrow> bool \<Rightarrow> board \<Rightarrow> bool" where
  "solve_post b solved b' \<longleftrightarrow>
     (\<not> solved \<longrightarrow> b' = b) \<and>
     (solved \<longrightarrow> is_board b' \<and> find_empty b' = None \<and> keeps_givens b b' \<and>
        (consistent b \<longrightarrow> consistent b'))"

text \<open>
  Three boards for the examples: a puzzle with two empty cells; the same with the 5 of
  its first cell replaced by a 3, which then stands twice in the first row; and a board
  whose entries do not conflict but whose empty cell in row 7 admits no digit.
\<close>

definition puzzle :: board where
  "puzzle = [
     [5,3,4,6,7,8,9,1,2],
     [6,7,2,1,9,5,3,4,8],
     [1,9,8,3,4,2,5,6,7],
     [8,5,9,7,6,1,4,2,3],
     [4,2,6,8,5,3,7,9,1],
     [7,1,3,9,2,4,8,5,6],
     [9,6,1,5,3,7,2,8,4],
     [2,8,7,4,1,9,6,3,5],
     [3,4,5,2,8,6,1,0,0]]"

definition conflicting_puzzle :: board where
  "conflicting_puzzle = [
     [3,3,4,6,7,8,9,1,2],
     [6,7,2,1,9,5,3,4,8],
     [1,9,8,3,4,2,5,6,7],
     [8,5,9,7,6,1,4,2,3],
     [4,2,6,8,5,3,7,9,1],
     [7,1,3,9,2,4,8,5,6],
     [9,6,1,5,3,7,2,8,4],
     [2,8,7,4,1,9,6,3,5],
     [3,4,5,2,8,6,1,0,0]]"

definition stuck_puzzle :: board where
  "stuck_puzzle = [
     [5,3,4,6,7,8,9,1,2],
     [6,7,2,1,9,5,3,4,8],
     [1,9,8,3,4,2,5,6,7],
     [8,5,9,7,6,1,4,2,3],
     [4,2,6,8,5,3,7,9,1],
     [7,1,3,9,2,4,8,5,6],
     [9,6,1,5,3,7,2,8,4],
     [2,8,7,4,1,0,6,3,9],
     [3,4,5,2,8,6,1,0,0]]"

section \<open>The maze solver of AI3.py\<close>

text \<open>
  The solver object: the grid, and the start and goal positions, \<open>None\<close> until the
  user has clicked them.
\<close>

record maze_solver = grid +
  start_pos :: "cell option"
  goal_pos :: "cell option"

text \<open>
  What a search tells its caller. AI3.py and Main.py write it into \<open>info_label\<close>,
  Main (2).py shows it in the status bar. \<open>PathFound\<close> carries what the program has
  built for the path.
\<close>

datatype 'a report = MissingEndpoints | NoPathFound | PathFound 'a | UnknownAlgorithm
  | NoStepsToVisualize

text \<open>
  The body of the \<open>for neighbor in self.get_neighbors(current)\<close> loop of
  \<open>solve_bfs\<close> (line 229) and of \<open>solve_dfs\<close> (line 252), which differ in the name
  of the frontier only: a neighbour not yet in \<open>visited\<close> is added to it, gets
  \<open>current\<close> as parent, and is appended to the frontier.
\<close>

definition discover ::
  "cell \<Rightarrow> cell \<Rightarrow> cell list \<times> cell set \<times> (cell \<rightharpoonup> cell) \<Rightarrow>
   cell list \<times> cell set \<times> (cell \<rightharpoonup> cell)" where
  "discover current neighbor = (\<lambda>(frontier, visited, parent).
     if neighbor \<notin> visited
     then (frontier @ [neighbor], insert neighbor visited, parent(neighbor \<mapsto> current))
     else (frontier, visited, parent))"

definition expand ::
  "'a grid_scheme \<Rightarrow> cell \<Rightarrow> cell list \<times> cell set \<times> (cell \<rightharpoonup> cell) \<Rightarrow>
   cell list \<times> cell set \<times> (cell \<rightharpoonup> cell)" where
  "expand g current = fold (discover current) (get_neighbors g current)"

text \<open>The cells of the grid.\<close>

definition grid_cells :: "'a grid_scheme \<Rightarrow> cell set" where
  "grid_cells g = {0..<ROWS g} \<times> {0..<COLS g}"

text \<open>
  The \<open>while queue\<close> loop of \<open>solve_bfs\<close> (line 223). The deque is a list, its left
  end first. The loop answers the \<open>parent\<close> dictionary when it pops the goal, \<open>None\<close>
  when the queue runs empty.
\<close>

function bfs_loop ::
  "'a grid_scheme \<Rightarrow> cell \<Rightarrow> cell list \<times> cell set \<times> (cell \<rightharpoonup> cell) \<Rightarrow> (cell \<rightharpoonup> cell) option" where
  "bfs_loop g goal (queue, visited, parent) =
     (case queue of
        [] \<Rightarrow> None
      | current # queue' \<Rightarrow>
          if current = goal then Some parent
          else bfs_loop g goal (expand g current (queue', visited, parent)))"
  by pat_completeness auto

text \<open>
  The \<open>while stack\<close> loop of \<open>solve_dfs\<close> (line 246). The stack is a Python list:
  \<open>pop()\<close> takes its last element, \<open>append\<close> adds at the same end.
\<close>

function dfs_loop ::
  "'a grid_scheme \<Rightarrow> cell \<Rightarrow> cell list \<times> cell set \<times> (cell \<rightharpoonup> cell) \<Rightarrow> (cell \<rightharpoonup> cell) option" where
  "dfs_loop g goal (stack, visited, parent) =
     (if stack = [] then None
      else if last stack = goal then Some parent
      else dfs_loop g goal (expand g (last stack) (butlast stack, visited, parent)))"
  by pat_completeness auto


lemma get_neighbors_distinct: "distinct (get_neighbors g pos)"
  by (cases pos) (auto simp: get_neighbors_def directions_def)

lemma get_neighbors_in_grid: "set (get_neighbors g pos) \<subseteq> grid_cells g"
  by (cases pos) (auto simp: get_neighbors_def directions_def grid_cells_def)

lemma finite_grid_cells: "finite (grid_cells g)"
  by (simp add: grid_cells_def)

lemma fold_discover:
  "distinct ns \<Longrightarrow>
   fold (discover c) ns (q, v, p) =
     (q @ filter (\<lambda>n. n \<notin> v) ns, v \<union> set ns,
      (\<lambda>x. if x \<in> set ns \<and> x \<notin> v then Some c else p x))"
proof (induction ns arbitrary: q v p)
  case Nil
  then show ?case by simp
next
  case (Cons n ns)
  have d: "distinct ns" "n \<notin> set ns" using Cons.prems by simp_all
  show ?case
  proof (cases "n \<in> v")
    case True
    then show ?thesis
      using Cons.IH[OF d(1), of q v p] by (auto simp: discover_def)
  next
    case False
    have f: "filter (\<lambda>m. m \<notin> insert n v) ns = filter (\<lambda>m. m \<notin> v) ns"
      using d(2) by (intro filter_cong) auto
    have "fold (discover c) (n # ns) (q, v, p) =
          fold (discover c) ns (q @ [n], insert n v, p(n \<mapsto> c))"
      using False by (simp add: discover_def)
    also have "\<dots> = ((q @ [n]) @ filter (\<lambda>m. m \<notin> insert n v) ns, insert n v \<union> set ns,
        (\<lambda>x. if x \<in> set ns \<and> x \<notin> insert n v then Some c else (p(n \<mapsto> c)) x))"
      by (rule Cons.IH[OF d(1)])
    also have "\<dots> = (q @ filter (\<lambda>n. n \<notin> v) (n # ns), v \<union> set (n # ns),
        (\<lambda>x. if x \<in> set (n # ns) \<and> x \<notin> v then Some c else p x))"
      using False f by (auto simp: fun_eq_iff)
    finally show ?thesis .
  qed
qed

lemma expand_eq:
  "expand g c (q, v, p) =
     (q @ filter (\<lambda>n. n \<notin> v) (get_neighbors g c), v \<union> set (get_neighbors g c),
      (\<lambda>x. if x \<in> set (get_neighbors g c) \<and> x \<notin> v then Some c else p x))"
  unfolding expand_def by (rule fold_discover[OF get_neighbors_distinct])

lemma expand_measure:
  assumes "expand g c (q, v, p) = (q', v', p')"
  shows "card (grid_cells g - v') < card (grid_cells g - v) \<or>
         (card (grid_cells g - v') = card (grid_cells g - v) \<and> length q' = length q)"
proof (cases "set (get_neighbors g c) \<subseteq> v")
  case True
  then have "filter (\<lambda>n. n \<notin> v) (get_neighbors g c) = []"
    by (auto simp: filter_empty_conv)
  moreover have "v \<union> set (get_neighbors g c) = v"
    using True by auto
  ultimately show ?thesis
    using assms by (simp add: expand_eq)
next
  case False
  then obtain n where n: "n \<in> set (get_neighbors g c)" "n \<notin> v" by auto
  then have "n \<in> grid_cells g" using get_neighbors_in_grid[of g c] by auto
  then have "grid_cells g - (v \<union> set (get_neighbors g c)) \<subset> grid_cells g - v"
    using n by auto
  then have "card (grid_cells g - (v \<union> set (get_neighbors g c))) < card (grid_cells g - v)"
    by (intro psubset_card_mono) (simp_all add: finite_grid_cells)
  then show ?thesis
    using assms by (simp add: expand_eq)
qed

termination bfs_loop
proof (relation "measures [\<lambda>(g, goal, q, v, p). card (grid_cells g - v),
                           \<lambda>(g, goal, q, v, p). length q]", goal_cases)
  case 1
  show ?case by simp
next
  case (2 g goal queue visited parent current queue')
  obtain q' v' p' where e: "expand g current (queue', visited, parent) = (q', v', p')"
    by (cases "expand g current (queue', visited, parent)")
  show ?case
    using expand_measure[OF e] 2 by (auto simp: e)
qed

termination dfs_loop
proof (relation "measures [\<lambda>(g, goal, q, v, p). card (grid_cells g - v),
                           \<lambda>(g, goal, q, v, p). length q]", goal_cases)
  case 1
  show ?case by simp
next
  case (2 g goal stack visited parent)
  obtain q' v' p' where e: "expand g (last stack) (butlast stack, visited, parent) = (q', v', p')"
    by (cases "expand g (last stack) (butlast stack, visited, parent)")
  have "length (butlast stack) < length stack"
    using 2 by (simp add: length_greater_0_conv)
  then show ?case
    using expand_measure[OF e] by (auto simp: e)
qed


text \<open>
  \<open>heapq.heappop\<close> on a heap of tuples that Python can compare: the least entry comes
  out. The heap is kept as the list of its entries, in the order they were pushed; which
  entry is popped depends on the entries only, not on how \<open>heapq\<close> arranges them.
\<close>

definition heappop :: "'a::linorder list \<Rightarrow> 'a \<times> 'a list" where
  "heappop heap = (Min (set heap), remove1 (Min (set heap)) heap)"

text \<open>
  The body of the \<open>for\<close> loop of \<open>solve_ucs\<close> (line 277): every neighbour not yet in
  \<open>visited\<close> is pushed with the cost of \<open>current\<close> plus one, and gets \<open>current\<close>
  as parent if it has none.
\<close>

definition ucs_push ::
  "cell \<Rightarrow> int \<Rightarrow> cell set \<Rightarrow> cell \<Rightarrow> (int \<times> cell) list \<times> (cell \<rightharpoonup> cell) \<Rightarrow>
   (int \<times> cell) list \<times> (cell \<rightharpoonup> cell)" where
  "ucs_push current cost visited neighbor = (\<lambda>(heap, parent).
     if neighbor \<notin> visited
     then (heap @ [(cost + 1, neighbor)],
           if neighbor \<notin> dom parent then parent(neighbor \<mapsto> current) else parent)
     else (heap, parent))"

definition ucs_expand ::
  "'a grid_scheme \<Rightarrow> cell \<Rightarrow> int \<Rightarrow> (int \<times> cell) list \<times> cell set \<times> (cell \<rightharpoonup> cell) \<Rightarrow>
   (int \<times> cell) list \<times> cell set \<times> (cell \<rightharpoonup> cell)" where
  "ucs_expand g current cost = (\<lambda>(heap, visited, parent).
     case fold (ucs_push current cost (insert current visited)) (get_neighbors g current)
            (heap, parent) of
       (heap', parent') \<Rightarrow> (heap', insert current visited, parent'))"

text \<open>
  The \<open>while heap\<close> loop of \<open>solve_ucs\<close> (line 269). The goal test comes first; an
  entry whose cell is in \<open>visited\<close> already is dropped.
\<close>

function ucs_loop ::
  "'a grid_scheme \<Rightarrow> cell \<Rightarrow> (int \<times> cell) list \<times> cell set \<times> (cell \<rightharpoonup> cell) \<Rightarrow>
   (cell \<rightharpoonup> cell) option" where
  "ucs_loop g goal (heap, visited, parent) =
     (if heap = [] then None
      else case heappop heap of
        ((cost, current), heap') \<Rightarrow>
          if current = goal then Some parent
          else if current \<in> visited then ucs_loop g goal (heap', visited, parent)
          else ucs_loop g goal (ucs_expand g current cost (heap', visited, parent)))"
  by pat_completeness auto

lemma fold_ucs_push:
  "distinct ns \<Longrightarrow>
   fold (ucs_push c k v) ns (h, p) =
     (h @ map (\<lambda>n. (k + 1, n)) (filter (\<lambda>n. n \<notin> v) ns),
      (\<lambda>x. if x \<in> set ns \<and> x \<notin> v \<and> x \<notin> dom p then Some c else p x))"
proof (induction ns arbitrary: h p)
  case Nil
  then show ?case by simp
next
  case (Cons n ns)
  have d: "distinct ns" "n \<notin> set ns" using Cons.prems by simp_all
  show ?case
  proof (cases "n \<in> v")
    case True
    then show ?thesis
      using Cons.IH[OF d(1), of h p] by (auto simp: ucs_push_def)
  next
    case False
    let ?p = "if n \<notin> dom p then p(n \<mapsto> c) else p"
    have "fold (ucs_push c k v) (n # ns) (h, p) = fold (ucs_push c k v) ns (h @ [(k + 1, n)], ?p)"
      using False by (simp add: ucs_push_def)
    also have "\<dots> = ((h @ [(k + 1, n)]) @ map (\<lambda>n. (k + 1, n)) (filter (\<lambda>n. n \<notin> v) ns),
        (\<lambda>x. if x \<in> set ns \<and> x \<notin> v \<and> x \<notin> dom ?p then Some c else ?p x))"
      by (rule Cons.IH[OF d(1)])
    also have "\<dots> = (h @ map (\<lambda>n. (k + 1, n)) (filter (\<lambda>n. n \<notin> v) (n # ns)),
        (\<lambda>x. if x \<in> set (n # ns) \<and> x \<notin> v \<and> x \<notin> dom p then Some c else p x))"
      using False d(2) by (auto simp: fun_eq_iff)
    finally show ?thesis .
  qed
qed

lemma ucs_expand_eq:
  "ucs_expand g c k (h, v, p) =
     (h @ map (\<lambda>n. (k + 1, n)) (filter (\<lambda>n. n \<notin> insert c v) (get_neighbors g c)),
      insert c v,
      (\<lambda>x. if x \<in> set (get_neighbors g c) \<and> x \<notin> insert c v \<and> x \<notin> dom p then Some c else p x))"
  unfolding ucs_expand_def by (simp add: fold_ucs_push[OF get_neighbors_distinct])

lemma heappop_in: "heap \<noteq> [] \<Longrightarrow> heappop heap = (e, heap') \<Longrightarrow> e \<in> set heap"
  unfolding heappop_def using Min_in[of "set heap"] by auto

lemma heappop_rest: "heappop heap = (e, heap') \<Longrightarrow> heap' = remove1 e heap"
  unfolding heappop_def by auto

termination ucs_loop
proof (relation "measures [\<lambda>(g, goal, h, v, p). card ((grid_cells g \<union> snd ` set h) - v),
                           \<lambda>(g, goal, h, v, p). length h]", goal_cases)
  case 1
  show ?case by simp
next
  case (2 g goal heap visited parent x1 heap' cost current)
  have e: "(cost, current) \<in> set heap" "heap' = remove1 (cost, current) heap"
    using 2 heappop_in[of heap "(cost, current)" heap'] heappop_rest[of heap "(cost, current)" heap']
    by auto
  have "(grid_cells g \<union> snd ` set heap') - visited \<subseteq> (grid_cells g \<union> snd ` set heap) - visited"
    using e(2) set_remove1_subset[of "(cost, current)" heap] by auto
  then have "card ((grid_cells g \<union> snd ` set heap') - visited) \<le>
             card ((grid_cells g \<union> snd ` set heap) - visited)"
    by (intro card_mono) (simp_all add: finite_grid_cells)
  moreover have "length heap' < length heap"
    using e length_pos_if_in_set[of "(cost, current)" heap] by (simp add: length_remove1)
  ultimately show ?case by auto
next
  case (3 g goal heap visited parent x1 heap' cost current)
  have e: "(cost, current) \<in> set heap" "heap' = remove1 (cost, current) heap"
    using 3 heappop_in[of heap "(cost, current)" heap'] heappop_rest[of heap "(cost, current)" heap']
    by auto
  let ?h = "heap' @ map (\<lambda>n. (cost + 1, n))
              (filter (\<lambda>n. n \<notin> insert current visited) (get_neighbors g current))"
  have "snd ` set ?h \<subseteq> snd ` set heap \<union> grid_cells g"
    using e(2) set_remove1_subset[of "(cost, current)" heap] get_neighbors_in_grid[of g current]
    by (auto simp: image_iff) 
  then have "(grid_cells g \<union> snd ` set ?h) - insert current visited
             \<subseteq> ((grid_cells g \<union> snd ` set heap) - visited) - {current}"
    by auto
  moreover have "current \<in> (grid_cells g \<union> snd ` set heap) - visited"
    using e(1) 3 by (auto simp: image_iff intro: bexI[of _ "(cost, current)"])
  ultimately have "(grid_cells g \<union> snd ` set ?h) - insert current visited
             \<subset> (grid_cells g \<union> snd ` set heap) - visited"
    by blast
  then have "card ((grid_cells g \<union> snd ` set ?h) - insert current visited)
             < card ((grid_cells g \<union> snd ` set heap) - visited)"
    by (intro psubset_card_mono) (simp_all add: finite_grid_cells)
  then show ?case
    by (simp add: ucs_expand_eq)
qed

text \<open>
  \<open>solve_bfs\<close>, \<open>solve_dfs\<close> and \<open>solve_ucs\<close> (lines 213, 236, 259). A position is a
  pair or \<open>None\<close>, so that \<open>not self.start_pos\<close> asks whether it is \<open>None\<close>. The call
  of \<open>clear_path\<close> restyles buttons; nothing in these methods assigns to \<open>self.state\<close>,
  \<open>self.start_pos\<close> or \<open>self.goal_pos\<close>, so the solver is the same after the call
  and the model returns the report only. \<open>PathFound\<close> carries the path that
  \<open>draw_path_with_steps\<close> numbers on the buttons.
\<close>

definition solve_bfs :: "'a maze_solver_scheme \<Rightarrow> (py_error + cell list report) option" where
  "solve_bfs m =
     (case (start_pos m, goal_pos m) of
        (Some start, Some goal) \<Rightarrow>
          (case bfs_loop m goal ([start], {start}, Map.empty) of
             Some parent \<Rightarrow> map_option (map_sum id PathFound) (draw_path parent start goal)
           | None \<Rightarrow> Some (Inr NoPathFound))
      | _ \<Rightarrow> Some (Inr MissingEndpoints))"

definition solve_dfs :: "'a maze_solver_scheme \<Rightarrow> (py_error + cell list report) option" where
  "solve_dfs m =
     (case (start_pos m, goal_pos m) of
        (Some start, Some goal) \<Rightarrow>
          (case dfs_loop m goal ([start], {start}, Map.empty) of
             Some parent \<Rightarrow> map_option (map_sum id PathFound) (draw_path parent start goal)
           | None \<Rightarrow> Some (Inr NoPathFound))
      | _ \<Rightarrow> Some (Inr MissingEndpoints))"

definition solve_ucs :: "'a maze_solver_scheme \<Rightarrow> (py_error + cell list report) option" where
  "solve_ucs m =
     (case (start_pos m, goal_pos m) of
        (Some start, Some goal) \<Rightarrow>
          (case ucs_loop m goal ([(0, start)], {}, Map.empty) of
             Some parent \<Rightarrow> map_option (map_sum id PathFound) (draw_path parent start goal)
           | None \<Rightarrow> Some (Inr NoPathFound))
      | _ \<Rightarrow> Some (Inr MissingEndpoints))"

section \<open>The pathfinding visualiser of Main (2).py\<close>

text \<open>\<open>PathfindingApp.heuristic\<close> (line 332): the Manhattan distance.\<close>

definition heuristic :: "cell \<Rightarrow> cell \<Rightarrow> int" where
  "heuristic a b = \<bar>fst a - fst b\<bar> + \<bar>snd a - snd b\<bar>"

text \<open>
  The frontier holds triples (priority, count, cell), where the count is drawn from the
  module-level \<open>pq_counter = itertools.count()\<close>, a Python integer that goes up by one
  at every \<open>next(pq_counter)\<close>. No two entries have the same count, so the comparison
  of two entries is settled by the priority and the count, before it reaches the cells
  (which Python cannot compare): \<open>heapq.heappop\<close> gives the entry that is least in
  priority and count.
\<close>

type_synonym pq_entry = "int \<times> int \<times> cell"

definition pq_key :: "pq_entry \<Rightarrow> int \<times> int" where
  "pq_key = (\<lambda>(priority, count, c). (priority, count))"

definition pq_pop :: "pq_entry list \<Rightarrow> pq_entry \<times> pq_entry list" where
  "pq_pop frontier =
     (arg_min_list pq_key frontier, remove1 (arg_min_list pq_key frontier) frontier)"

text \<open>
  The body of the \<open>for next_node in self.grid.get_neighbors(current)\<close> loop of
  \<open>greedy_best_first_search\<close> (line 380): a neighbour that is no key of \<open>came_from\<close>
  is pushed with its heuristic as priority and gets \<open>current\<close> as predecessor.
\<close>

definition greedy_push ::
  "cell \<Rightarrow> cell \<Rightarrow> cell \<Rightarrow> pq_entry list \<times> came_from_map \<times> int \<Rightarrow>
   pq_entry list \<times> came_from_map \<times> int" where
  "greedy_push goal current next_node = (\<lambda>(frontier, came_from, counter).
     if next_node \<notin> dom came_from
     then (frontier @ [(heuristic goal next_node, counter, next_node)],
           came_from(next_node \<mapsto> Some current), counter + 1)
     else (frontier, came_from, counter))"

definition greedy_expand ::
  "'a grid_scheme \<Rightarrow> cell \<Rightarrow> cell \<Rightarrow> pq_entry list \<times> came_from_map \<times> int \<Rightarrow>
   pq_entry list \<times> came_from_map \<times> int" where
  "greedy_expand g goal current = fold (greedy_push goal current) (get_neighbors g current)"

text \<open>
  The \<open>while frontier\<close> loop of \<open>greedy_best_first_search\<close> (line 371). It leaves
  by \<open>break\<close> when the goal is popped and by the loop condition when the frontier is
  empty; both ways the method returns \<open>visited_order\<close> and \<open>came_from\<close>. The value of
  the counter is returned with them, since the next search goes on from it.
\<close>

function greedy_loop ::
  "'a grid_scheme \<Rightarrow> cell \<Rightarrow> cell \<Rightarrow> pq_entry list \<times> came_from_map \<times> int \<Rightarrow> cell list \<Rightarrow>
   cell list \<times> came_from_map \<times> int" where
  "greedy_loop g start goal (frontier, came_from, counter) visited_order =
     (if frontier = [] then (visited_order, came_from, counter)
      else case pq_pop frontier of
        ((current_priority, n, current), frontier') \<Rightarrow>
          if current = goal then (visited_order, came_from, counter)
          else greedy_loop g start goal
                 (greedy_expand g goal current (frontier', came_from, counter))
                 (if current \<noteq> start \<and> current \<noteq> goal then visited_order @ [current]
                  else visited_order))"
  by pat_completeness auto

lemma fold_greedy_push:
  "distinct ns \<Longrightarrow>
   \<exists>new k'. fold (greedy_push goal c) ns (f, cf, k) =
       (f @ new, (\<lambda>x. if x \<in> set ns \<and> x \<notin> dom cf then Some (Some c) else cf x), k') \<and>
     map (\<lambda>e. snd (snd e)) new = filter (\<lambda>n. n \<notin> dom cf) ns \<and> k \<le> k' \<and>
     (\<forall>e \<in> set new. fst e = heuristic goal (snd (snd e)) \<and> k \<le> fst (snd e) \<and> fst (snd e) < k')"
proof (induction ns arbitrary: f cf k)
  case Nil
  then show ?case by simp
next
  case (Cons n ns)
  have d: "distinct ns" "n \<notin> set ns" using Cons.prems by simp_all
  show ?case
  proof (cases "n \<in> dom cf")
    case True
    have 1: "fold (greedy_push goal c) (n # ns) (f, cf, k) = fold (greedy_push goal c) ns (f, cf, k)"
      using True by (simp add: greedy_push_def)
    have 2: "(\<lambda>x. if x \<in> set (n # ns) \<and> x \<notin> dom cf then Some (Some c) else cf x) =
             (\<lambda>x. if x \<in> set ns \<and> x \<notin> dom cf then Some (Some c) else cf x)"
      using True by (auto simp: fun_eq_iff)
    have 3: "filter (\<lambda>n. n \<notin> dom cf) (n # ns) = filter (\<lambda>n. n \<notin> dom cf) ns"
      using True by simp
    show ?thesis
      unfolding 1 2 3 by (rule Cons.IH[OF d(1)])
  next
    case False
    let ?cf = "cf(n \<mapsto> Some c)"
    let ?e = "(heuristic goal n, k, n)"
    have fl: "filter (\<lambda>m. m \<notin> dom ?cf) ns = filter (\<lambda>m. m \<notin> dom cf) ns"
      using d(2) by (intro filter_cong) auto
    have 1: "fold (greedy_push goal c) (n # ns) (f, cf, k) =
          fold (greedy_push goal c) ns (f @ [?e], ?cf, k + 1)"
      using False by (simp add: greedy_push_def)
    have 2: "(\<lambda>x. if x \<in> set ns \<and> x \<notin> dom ?cf then Some (Some c) else ?cf x) =
             (\<lambda>x. if x \<in> set (n # ns) \<and> x \<notin> dom cf then Some (Some c) else cf x)"
      using False by (auto simp: fun_eq_iff)
    obtain new k' where IH: "fold (greedy_push goal c) ns (f @ [?e], ?cf, k + 1) =
       ((f @ [?e]) @ new, (\<lambda>x. if x \<in> set ns \<and> x \<notin> dom ?cf then Some (Some c) else ?cf x), k')"
     "map (\<lambda>e. snd (snd e)) new = filter (\<lambda>n. n \<notin> dom ?cf) ns" "k + 1 \<le> k'"
     "\<forall>e \<in> set new. fst e = heuristic goal (snd (snd e)) \<and> k + 1 \<le> fst (snd e) \<and> fst (snd e) < k'"
      using Cons.IH[OF d(1), of "f @ [?e]" ?cf "k + 1"] by blast
    have a: "fold (greedy_push goal c) (n # ns) (f, cf, k) =
       (f @ (?e # new), (\<lambda>x. if x \<in> set (n # ns) \<and> x \<notin> dom cf then Some (Some c) else cf x), k')"
      unfolding 1 IH(1) 2 by simp
    have b: "map (\<lambda>e. snd (snd e)) (?e # new) = filter (\<lambda>n. n \<notin> dom cf) (n # ns)"
      using False IH(2) fl by simp
    have c: "\<forall>e \<in> set (?e # new). fst e = heuristic goal (snd (snd e)) \<and> k \<le> fst (snd e) \<and> fst (snd e) < k'"
      using IH(3,4) by auto
    show ?thesis
      using a b c IH(3) by (intro exI[of _ "?e # new"] exI[of _ k']) simp
  qed
qed

lemma greedy_expand_eq:
  "\<exists>new k'. greedy_expand g goal c (f, cf, k) =
       (f @ new, (\<lambda>x. if x \<in> set (get_neighbors g c) \<and> x \<notin> dom cf then Some (Some c) else cf x), k') \<and>
     map (\<lambda>e. snd (snd e)) new = filter (\<lambda>n. n \<notin> dom cf) (get_neighbors g c) \<and> k \<le> k' \<and>
     (\<forall>e \<in> set new. fst e = heuristic goal (snd (snd e)) \<and> k \<le> fst (snd e) \<and> fst (snd e) < k')"
  unfolding greedy_expand_def by (rule fold_greedy_push[OF get_neighbors_distinct])

lemma pq_pop_in: "frontier \<noteq> [] \<Longrightarrow> pq_pop frontier = (e, frontier') \<Longrightarrow> e \<in> set frontier"
  unfolding pq_pop_def using arg_min_list_in[of frontier pq_key] by auto

lemma pq_pop_rest: "pq_pop frontier = (e, frontier') \<Longrightarrow> frontier' = remove1 e frontier"
  unfolding pq_pop_def by auto

lemma pq_pop_length:
  "frontier \<noteq> [] \<Longrightarrow> pq_pop frontier = (e, frontier') \<Longrightarrow> length frontier' < length frontier"
  using pq_pop_in[of frontier e frontier'] pq_pop_rest[of frontier e frontier']
    length_pos_if_in_set[of e frontier]
  by (simp add: length_remove1)

termination greedy_loop
proof (relation "measures [\<lambda>(g, start, goal, (f, cf, k), vo). card (grid_cells g - dom cf),
                           \<lambda>(g, start, goal, (f, cf, k), vo). length f]", goal_cases)
  case 1
  show ?case by simp
next
  case (2 g start goal frontier came_from counter visited_order x1 frontier' current_priority x2 n current)
  obtain new k' where e: "greedy_expand g goal current (frontier', came_from, counter) =
       (frontier' @ new, (\<lambda>x. if x \<in> set (get_neighbors g current) \<and> x \<notin> dom came_from
          then Some (Some current) else came_from x), k')"
     "map (\<lambda>e. snd (snd e)) new = filter (\<lambda>n. n \<notin> dom came_from) (get_neighbors g current)"
    using greedy_expand_eq[of g goal current frontier' came_from counter] by blast
  let ?cf = "(\<lambda>x. if x \<in> set (get_neighbors g current) \<and> x \<notin> dom came_from
          then Some (Some current) else came_from x)"
  have dm: "dom ?cf = dom came_from \<union> set (get_neighbors g current)"
    by (auto split: if_splits)
  have len: "length frontier' < length frontier"
    by (rule pq_pop_length[OF 2(1) 2(2)[symmetric]])
  show ?case
  proof (cases "set (get_neighbors g current) \<subseteq> dom came_from")
    case True
    then have "filter (\<lambda>n. n \<notin> dom came_from) (get_neighbors g current) = []"
      by (auto simp: filter_empty_conv)
    then have "new = []" using e(2) by simp
    moreover have "dom ?cf = dom came_from" using True dm by auto
    ultimately show ?thesis
      using len unfolding e(1) by simp
  next
    case False
    then obtain m where m: "m \<in> set (get_neighbors g current)" "m \<notin> dom came_from" by auto
    then have "m \<in> grid_cells g" using get_neighbors_in_grid[of g current] by auto
    then have "grid_cells g - dom ?cf \<subset> grid_cells g - dom came_from"
      using m unfolding dm by auto
    then have "card (grid_cells g - dom ?cf) < card (grid_cells g - dom came_from)"
      by (intro psubset_card_mono) (simp_all add: finite_grid_cells)
    then show ?thesis
      unfolding e(1) by simp
  qed
qed

definition greedy_best_first_search ::
  "'a grid_scheme \<Rightarrow> int \<Rightarrow> cell \<Rightarrow> cell \<Rightarrow> cell list \<times> came_from_map \<times> int" where
  "greedy_best_first_search g counter start goal =
     greedy_loop g start goal ([(0, counter, start)], [start \<mapsto> None], counter + 1) []"


text \<open>
  The body of the \<open>for\<close> loop of \<open>a_star_search\<close> (line 352). \<open>cost_so_far[current]\<close>
  raises \<open>KeyError\<close> when \<open>current\<close> is no key; the neighbour is recorded when it is no
  key of \<open>cost_so_far\<close> or when the new cost is strictly below the recorded one.
\<close>

definition a_star_relax ::
  "cell \<Rightarrow> cell \<Rightarrow> cell \<Rightarrow> pq_entry list \<times> came_from_map \<times> (cell \<rightharpoonup> int) \<times> int \<Rightarrow>
   py_error + pq_entry list \<times> came_from_map \<times> (cell \<rightharpoonup> int) \<times> int" where
  "a_star_relax goal current next_node = (\<lambda>(frontier, came_from, cost_so_far, counter).
     case cost_so_far current of
       None \<Rightarrow> Inl KeyError
     | Some cost \<Rightarrow>
         let new_cost = cost + 1 in
         if next_node \<notin> dom cost_so_far \<or> new_cost < the (cost_so_far next_node)
         then Inr (frontier @ [(new_cost + heuristic goal next_node, counter, next_node)],
                   came_from(next_node \<mapsto> Some current),
                   cost_so_far(next_node \<mapsto> new_cost), counter + 1)
         else Inr (frontier, came_from, cost_so_far, counter))"

text \<open>A \<open>for\<close> loop whose body may raise: the first error ends it.\<close>

fun for_each :: "('a \<Rightarrow> 's \<Rightarrow> py_error + 's) \<Rightarrow> 'a list \<Rightarrow> 's \<Rightarrow> py_error + 's" where
  "for_each body [] s = Inr s"
| "for_each body (x # xs) s = (case body x s of Inl e \<Rightarrow> Inl e | Inr s' \<Rightarrow> for_each body xs s')"

definition a_star_expand ::
  "'a grid_scheme \<Rightarrow> cell \<Rightarrow> cell \<Rightarrow> pq_entry list \<times> came_from_map \<times> (cell \<rightharpoonup> int) \<times> int \<Rightarrow>
   py_error + pq_entry list \<times> came_from_map \<times> (cell \<rightharpoonup> int) \<times> int" where
  "a_star_expand g goal current = for_each (a_star_relax goal current) (get_neighbors g current)"

text \<open>
  The \<open>while frontier\<close> loop of \<open>a_star_search\<close> (line 343). A cell whose cost has
  been lowered is pushed again, and nothing keeps the loop from expanding it again, so the
  loop is a partial function; \<open>None\<close> stands for a run that does not end.
\<close>

partial_function (option) a_star_loop ::
  "'a grid_scheme \<Rightarrow> cell \<Rightarrow> cell \<Rightarrow> pq_entry list \<times> came_from_map \<times> (cell \<rightharpoonup> int) \<times> int \<Rightarrow>
   cell list \<Rightarrow> (py_error + cell list \<times> came_from_map \<times> int) option" where
  "a_star_loop g start goal st visited_order =
     (if fst st = [] then Some (Inr (visited_order, fst (snd st), snd (snd (snd st))))
      else let current = snd (snd (fst (pq_pop (fst st)))) in
        if current = goal then Some (Inr (visited_order, fst (snd st), snd (snd (snd st))))
        else case a_star_expand g goal current (snd (pq_pop (fst st)), snd st) of
               Inl e \<Rightarrow> Some (Inl e)
             | Inr st' \<Rightarrow>
                 a_star_loop g start goal st'
                   (if current \<noteq> start \<and> current \<noteq> goal then visited_order @ [current]
                    else visited_order))"

definition a_star_search ::
  "'a grid_scheme \<Rightarrow> int \<Rightarrow> cell \<Rightarrow> cell \<Rightarrow> (py_error + cell list \<times> came_from_map \<times> int) option" where
  "a_star_search g counter start goal =
     a_star_loop g start goal
       ([(0, counter, start)], [start \<mapsto> None], [start \<mapsto> 0], counter + 1) []"

text \<open>
  The application: the grid with its start and goal cells, the steps and the path kept
  for the animation, the flags of the animation, and the module-level counter.
\<close>

record pathfinding_app = grid +
  grid_start :: "cell option"
  grid_goal :: "cell option"
  steps :: "cell list"
  app_path :: "cell list"
  step_counter :: nat
  algorithm_running :: bool
  timer_active :: bool
  pq_counter :: int

text \<open>The text of the combo box.\<close>

datatype algorithm = AStar | GreedyBestFirst | OtherAlgorithm

text \<open>\<open>clear_visualization_steps\<close> (line 295).\<close>

definition clear_visualization_steps :: "pathfinding_app \<Rightarrow> pathfinding_app" where
  "clear_visualization_steps app =
     app\<lparr>state := map (map (\<lambda>t. if t = Visited \<or> t = Path then Empty else t)) (state app),
         steps := [], app_path := [], step_counter := 0,
         algorithm_running := False, timer_active := False\<rparr>"

text \<open>
  The end of \<open>run_algorithm\<close> (line 279), once the search has returned: the path is
  rebuilt when the goal is a key of \<open>came_from\<close>, else \<open>No path found!\<close> is shown;
  then the animation is started if there is anything to show.
\<close>

definition start_animation ::
  "int \<Rightarrow> unit report list \<times> pathfinding_app \<Rightarrow> unit report list \<times> pathfinding_app" where
  "start_animation counter = (\<lambda>(messages, app).
     let app' = app\<lparr>step_counter := 0, pq_counter := counter\<rparr> in
     if steps app' \<noteq> [] \<or> app_path app' \<noteq> []
     then (messages, app'\<lparr>timer_active := True\<rparr>)
     else (messages @ [NoStepsToVisualize], app'\<lparr>algorithm_running := False\<rparr>))"

definition show_result ::
  "pathfinding_app \<Rightarrow> cell \<Rightarrow> cell \<Rightarrow> cell list \<times> came_from_map \<times> int \<Rightarrow>
   (unit report list \<times> pathfinding_app) option" where
  "show_result app start goal = (\<lambda>(visited_order, came_from, counter).
     map_option (start_animation counter)
       (if goal \<in> dom came_from
        then map_option (\<lambda>p. ([], app\<lparr>steps := remove1 goal visited_order, app_path := p\<rparr>))
               (reconstruct_path start goal came_from)
        else Some ([NoPathFound], app\<lparr>steps := visited_order, app_path := []\<rparr>)))"

text \<open>
  \<open>run_algorithm\<close> (line 254). The result lists the messages shown in the status bar
  during the call, and gives the application after it.
\<close>

definition run_algorithm ::
  "algorithm \<Rightarrow> pathfinding_app \<Rightarrow> (py_error + unit report list \<times> pathfinding_app) option" where
  "run_algorithm algo app =
     (case (grid_start app, grid_goal app) of
        (Some start, Some goal) \<Rightarrow>
          (let app' = (clear_visualization_steps app)\<lparr>algorithm_running := True, timer_active := False\<rparr>
           in case algo of
                AStar \<Rightarrow>
                  (case a_star_search app' (pq_counter app') start goal of
                     None \<Rightarrow> None
                   | Some (Inl e) \<Rightarrow> Some (Inl e)
                   | Some (Inr r) \<Rightarrow> map_option Inr (show_result app' start goal r))
              | GreedyBestFirst \<Rightarrow>
                  map_option Inr (show_result app' start goal
                    (greedy_best_first_search app' (pq_counter app') start goal))
              | OtherAlgorithm \<Rightarrow>
                  Some (Inr ([UnknownAlgorithm], app'\<lparr>algorithm_running := False\<rparr>)))
      | _ \<Rightarrow> Some (Inr ([MissingEndpoints], app)))"

section \<open>The maze solver of Main.py\<close>

text \<open>
  \<open>update_cell\<close> (line 108) writes \<open>self.state[row][col]\<close>. The solver calls it on
  cells of the grid only.
\<close>

definition update_cell :: "'a grid_scheme \<Rightarrow> cell \<Rightarrow> cell_type \<Rightarrow> 'a grid_scheme" where
  "update_cell g pos v =
     (case pos of (row, col) \<Rightarrow>
        g\<lparr>state := (state g)[nat row := (state g ! nat row)[nat col := v]]\<rparr>)"

text \<open>
  The body of the \<open>for dr, dc\<close> loop of \<open>solve_bfs\<close> (line 145). The arrays
  \<open>visited\<close> and \<open>prev\<close> are indexed by cells of the grid: the model keeps the set of
  the cells whose entry of \<open>visited\<close> is \<open>True\<close>, and the map of those whose entry of
  \<open>prev\<close> is not \<open>None\<close>.
\<close>

definition discover_Main ::
  "'a grid_scheme \<Rightarrow> cell \<Rightarrow> int \<times> int \<Rightarrow> cell list \<times> cell set \<times> (cell \<rightharpoonup> cell) \<Rightarrow>
   cell list \<times> cell set \<times> (cell \<rightharpoonup> cell)" where
  "discover_Main g pos d = (\<lambda>(q, visited, prev).
     case (fst pos + fst d, snd pos + snd d) of (r, c) \<Rightarrow>
       if 0 \<le> r \<and> r < ROWS g \<and> 0 \<le> c \<and> c < COLS g \<and> (r, c) \<notin> visited \<and>
          state g ! nat r ! nat c \<noteq> Wall
       then (q @ [(r, c)], insert (r, c) visited, prev((r, c) \<mapsto> pos))
       else (q, visited, prev))"

definition expand_Main ::
  "'a grid_scheme \<Rightarrow> cell \<Rightarrow> cell list \<times> cell set \<times> (cell \<rightharpoonup> cell) \<Rightarrow>
   cell list \<times> cell set \<times> (cell \<rightharpoonup> cell)" where
  "expand_Main g pos = fold (discover_Main g pos) directions"

text \<open>
  A popped cell that is neither the start nor the goal is painted \<open>'visited'\<close> (line
  137), before the goal test.
\<close>

definition mark_visited :: "'a grid_scheme \<Rightarrow> cell \<Rightarrow> cell \<Rightarrow> cell \<Rightarrow> 'a grid_scheme" where
  "mark_visited g start goal pos =
     (if pos \<noteq> start \<and> pos \<noteq> goal then update_cell g pos Visited else g)"

text \<open>
  The \<open>while q\<close> loop of \<open>solve_bfs\<close> (line 135): it answers \<open>found\<close>, the solver
  with the cells it has painted, and \<open>prev\<close>.
\<close>

function bfs_loop_Main ::
  "'a grid_scheme \<Rightarrow> cell \<Rightarrow> cell \<Rightarrow> cell list \<times> cell set \<times> (cell \<rightharpoonup> cell) \<Rightarrow>
   bool \<times> 'a grid_scheme \<times> (cell \<rightharpoonup> cell)" where
  "bfs_loop_Main g start goal (q, visited, prev) =
     (case q of
        [] \<Rightarrow> (False, g, prev)
      | pos # q' \<Rightarrow>
          if pos = goal then (True, mark_visited g start goal pos, prev)
          else bfs_loop_Main (mark_visited g start goal pos) start goal
                 (expand_Main (mark_visited g start goal pos) pos (q', visited, prev)))"
  by pat_completeness auto

lemma ROWS_update_cell [simp]: "ROWS (update_cell g pos v) = ROWS g"
  by (cases pos) (simp add: update_cell_def)

lemma COLS_update_cell [simp]: "COLS (update_cell g pos v) = COLS g"
  by (cases pos) (simp add: update_cell_def)

lemma grid_cells_mark_visited [simp]: "grid_cells (mark_visited g start goal pos) = grid_cells g"
  by (simp add: mark_visited_def grid_cells_def)

lemma expand_Main_eq: "expand_Main g pos = expand g pos"
proof -
  have "fold (discover_Main g pos) ds st =
        fold (discover pos)
          (filter (\<lambda>(nr, nc). 0 \<le> nr \<and> nr < ROWS g \<and> 0 \<le> nc \<and> nc < COLS g \<and>
                     state g ! nat nr ! nat nc \<noteq> Wall)
             (map (\<lambda>(dr, dc). (fst pos + dr, snd pos + dc)) ds)) st" for ds st
  proof (induction ds arbitrary: st)
    case Nil
    then show ?case by simp
  next
    case (Cons d ds)
    obtain q v p where st: "st = (q, v, p)" by (cases st)
    obtain dr dc where d: "d = (dr, dc)" by (cases d)
    show ?case
      unfolding st d using Cons.IH
      by (simp add: discover_Main_def discover_def)
  qed
  then show ?thesis
    by (cases pos) (simp add: expand_Main_def expand_def get_neighbors_def fun_eq_iff)
qed

termination bfs_loop_Main
proof (relation "measures [\<lambda>(g, start, goal, q, v, p). card (grid_cells g - v),
                           \<lambda>(g, start, goal, q, v, p). length q]", goal_cases)
  case 1
  show ?case by simp
next
  case (2 g start goal q visited prev pos q')
  let ?g = "mark_visited g start goal pos"
  obtain q'' v' p' where e: "expand ?g pos (q', visited, prev) = (q'', v', p')"
    by (cases "expand ?g pos (q', visited, prev)")
  show ?case
    using expand_measure[OF e] 2 by (auto simp: e expand_Main_eq)
qed

text \<open>
  \<open>reconstruct_path\<close> (line 158) walks \<open>prev\<close> from the goal and paints the cells
  before it \<open>'path'\<close>, the start excepted. Unpacking an entry of \<open>prev\<close> that is
  \<open>None\<close> raises \<open>TypeError\<close>.
\<close>

partial_function (option) reconstruct_path_Main ::
  "'a grid_scheme \<Rightarrow> cell \<Rightarrow> (cell \<rightharpoonup> cell) \<Rightarrow> cell \<Rightarrow> (py_error + 'a grid_scheme) option" where
  "reconstruct_path_Main g start prev pos =
     (if pos = start then Some (Inr g)
      else case prev pos of
             None \<Rightarrow> Some (Inl TypeError)
           | Some p \<Rightarrow>
               reconstruct_path_Main (if p \<noteq> start then update_cell g p Path else g) start prev p)"

text \<open>\<open>solve_bfs\<close> (line 120): the report, and the solver with the cells painted.\<close>

definition solve_bfs_Main ::
  "'a maze_solver_scheme \<Rightarrow> (py_error + unit report \<times> 'a maze_solver_scheme) option" where
  "solve_bfs_Main m =
     (case (start_pos m, goal_pos m) of
        (Some start, Some goal) \<Rightarrow>
          (case bfs_loop_Main m start goal ([start], {start}, Map.empty) of
             (True, m', prev) \<Rightarrow>
               map_option (map_sum id (\<lambda>m''. (PathFound (), m'')))
                 (reconstruct_path_Main m' start prev goal)
           | (False, m', prev) \<Rightarrow> Some (Inr (NoPathFound, m')))
      | _ \<Rightarrow> Some (Inr (MissingEndpoints, m)))"

text \<open>
  Examples. A maze of AI3.py and Main.py with the start in the corner and the goal next to
  it; the grid of Main (2).py with the start in the corner and the goal two cells to its
  right.
\<close>

definition demo_maze :: maze_solver where
  "demo_maze = \<lparr>ROWS = 10, COLS = 10,
     state = (replicate 10 (replicate 10 Empty))[0 := [Start, Goal] @ replicate 8 Empty],
     start_pos = Some (0, 0), goal_pos = Some (0, 1)\<rparr>"

definition demo_app :: pathfinding_app where
  "demo_app = \<lparr>ROWS = 20, COLS = 30,
     state = (replicate 20 (replicate 30 Empty))[0 := [Start, Empty, Goal] @ replicate 27 Empty],
     grid_start = Some (0, 0), grid_goal = Some (0, 2), steps = [], app_path = [],
     step_counter = 0, algorithm_running = False, timer_active = False, pq_counter = 0\<rparr>"

declare reconstruct_loop.simps [code] draw_path_loop.simps [code] a_star_loop.simps [code]
  reconstruct_path_Main.simps [code]

section \<open>Facts about path reconstruction\<close>

lemma links_snoc:
  "links came_from (p @ [b, c]) \<longleftrightarrow> links came_from (p @ [b]) \<and> dict_get came_from c = Some b"
proof (induction p)
  case Nil
  then show ?case by simp
next
  case (Cons a p)
  then show ?case by (cases p) auto
qed

lemma reconstruct_loop_chain:
  "start \<notin> set (tl (p @ [c])) \<Longrightarrow> links came_from (p @ [c]) \<Longrightarrow>
   reconstruct_loop start came_from (Some c) path =
   reconstruct_loop start came_from (Some (hd (p @ [c]))) (tl (p @ [c]) @ path)"
proof (induction p arbitrary: c path rule: rev_induct)
  case Nil
  then show ?case by simp
next
  case (snoc b p)
  have l: "links came_from (p @ [b])" "dict_get came_from c = Some b"
    using snoc.prems(2) by (simp_all add: links_snoc)
  have ne: "c \<noteq> start" "start \<notin> set (tl (p @ [b]))"
    using snoc.prems(1) by (cases p; auto)+
  have "reconstruct_loop start came_from (Some c) path =
        reconstruct_loop start came_from (Some b) (c # path)"
    using ne(1) l(2) by (subst reconstruct_loop.simps) auto
  also have "\<dots> = reconstruct_loop start came_from (Some (hd (p @ [b]))) (tl (p @ [b]) @ c # path)"
    using snoc.IH[OF ne(2) l(1)] by simp
  finally show ?case by (cases p) auto
qed

lemma reconstruct_path_chain:
  assumes "p \<noteq> []" "last p = goal" "start \<notin> set p" "links came_from p"
    and "dict_get came_from (hd p) = Some start \<or> dict_get came_from (hd p) = None"
  shows "reconstruct_path start goal came_from = Some p"
proof -
  obtain q where q: "p = q @ [goal]"
    using assms(1,2) by (metis append_butlast_last_id)
  have "start \<notin> set (tl (q @ [goal]))"
    using assms(3) q by (cases q) auto
  then have "reconstruct_loop start came_from (Some goal) [] =
             reconstruct_loop start came_from (Some (hd p)) (tl p)"
    using reconstruct_loop_chain[of start q goal came_from "[]"] assms(4) q by simp
  also have "\<dots> = reconstruct_loop start came_from (dict_get came_from (hd p)) (hd p # tl p)"
    using assms(1,3) by (subst reconstruct_loop.simps) (cases p; auto)
  also have "\<dots> = Some p"
    using assms(5,1) by (subst reconstruct_loop.simps) auto
  finally show ?thesis by (simp add: reconstruct_path_def)
qed

lemma reconstruct_path_same:
  "reconstruct_path start start came_from = Some []"
  by (simp add: reconstruct_path_def reconstruct_loop.simps)

lemma parent_links_snoc:
  "parent_links parent (p @ [b, c]) \<longleftrightarrow> parent_links parent (p @ [b]) \<and> parent c = Some b"
proof (induction p)
  case Nil
  then show ?case by simp
next
  case (Cons a p)
  then show ?case by (cases p) auto
qed

lemma draw_path_loop_chain:
  "start \<notin> set (tl (p @ [c])) \<Longrightarrow> parent_links parent (p @ [c]) \<Longrightarrow>
   draw_path_loop parent start c path =
   draw_path_loop parent start (hd (p @ [c])) (path @ rev (tl (p @ [c])))"
proof (induction p arbitrary: c path rule: rev_induct)
  case Nil
  then show ?case by simp
next
  case (snoc b p)
  have l: "parent_links parent (p @ [b])" "parent c = Some b"
    using snoc.prems(2) by (simp_all add: parent_links_snoc)
  have ne: "c \<noteq> start" "start \<notin> set (tl (p @ [b]))"
    using snoc.prems(1) by (cases p; auto)+
  have "draw_path_loop parent start c path = draw_path_loop parent start b (path @ [c])"
    using ne(1) l(2) by (subst draw_path_loop.simps) auto
  also have "\<dots> = draw_path_loop parent start (hd (p @ [b])) ((path @ [c]) @ rev (tl (p @ [b])))"
    using snoc.IH[OF ne(2) l(1)] by simp
  finally show ?case by (cases p) auto
qed

lemma draw_path_loop_head:
  assumes "p \<noteq> []" "last p = goal" "start \<notin> set p" "parent_links parent p"
  shows "draw_path_loop parent start goal [] = draw_path_loop parent start (hd p) (rev (tl p))"
proof -
  obtain q where q: "p = q @ [goal]"
    using assms(1,2) by (metis append_butlast_last_id)
  have "start \<notin> set (tl (q @ [goal]))"
    using assms(3) q by (cases q) auto
  then show ?thesis
    using draw_path_loop_chain[of start q goal parent "[]"] assms(4) q by simp
qed

lemma draw_path_chain:
  assumes "p \<noteq> []" "last p = goal" "start \<notin> set p" "parent_links parent p"
    and "parent (hd p) = Some start"
  shows "draw_path parent start goal = Some (Inr (start # p))"
proof -
  have "draw_path_loop parent start goal [] = draw_path_loop parent start (hd p) (rev (tl p))"
    using assms(1-4) by (rule draw_path_loop_head)
  also have "\<dots> = draw_path_loop parent start start (rev (tl p) @ [hd p])"
    using assms(1,3,5) by (subst draw_path_loop.simps) (cases p; auto)
  also have "\<dots> = Some (Inr (rev (tl p) @ [hd p]))"
    by (subst draw_path_loop.simps) simp
  also have "rev (tl p) @ [hd p] = rev p"
    using assms(1) by (cases p) auto
  finally show ?thesis by (simp add: draw_path_def)
qed

lemma draw_path_broken:
  assumes "p \<noteq> []" "last p = goal" "start \<notin> set p" "parent_links parent p"
    and "parent (hd p) = None"
  shows "draw_path parent start goal = Some (Inl KeyError)"
proof -
  have "draw_path_loop parent start goal [] = draw_path_loop parent start (hd p) (rev (tl p))"
    using assms(1-4) by (rule draw_path_loop_head)
  also have "\<dots> = Some (Inl KeyError)"
    using assms(1,3,5) by (subst draw_path_loop.simps) (cases p; auto)
  finally show ?thesis by (simp add: draw_path_def)
qed

lemma draw_path_same:
  "draw_path parent start start = Some (Inr [start])"
  by (simp add: draw_path_def draw_path_loop.simps)

section \<open>Facts about the Sudoku solver\<close>

subsection \<open>Facts about the board\<close>

lemma set_board_cells: "set board_cells = {(r, c). r < 9 \<and> c < 9}"
  by (auto simp: board_cells_def)

lemma is_board_length: "is_board b \<Longrightarrow> length b = 9"
  by (simp add: is_board_def)

lemma is_board_row: "is_board b \<Longrightarrow> r < 9 \<Longrightarrow> length (b ! r) = 9"
  by (simp add: is_board_def list_all_length)

lemma is_board_entry: "is_board b \<Longrightarrow> r < 9 \<Longrightarrow> c < 9 \<Longrightarrow> 0 \<le> b ! r ! c \<and> b ! r ! c \<le> 9"
  by (simp add: is_board_def list_all_length)

lemma nth_set_cell:
  "is_board b \<Longrightarrow> r < 9 \<Longrightarrow> c < 9 \<Longrightarrow>
   set_cell b r c v ! r' ! c' = (if r' = r \<and> c' = c then v else b ! r' ! c')"
  by (simp add: set_cell_def nth_list_update is_board_length is_board_row)

lemma is_board_set_cell:
  assumes "is_board b" "r < 9" "c < 9" "0 \<le> v" "v \<le> 9"
  shows "is_board (set_cell b r c v)"
proof -
  have len: "length (set_cell b r c v) = 9"
    using assms(1) by (simp add: set_cell_def is_board_length)
  have "length (set_cell b r c v ! i) = 9 \<and>
        (\<forall>j < 9. 0 \<le> set_cell b r c v ! i ! j \<and> set_cell b r c v ! i ! j \<le> 9)" if "i < 9" for i
  proof -
    have "length (set_cell b r c v ! i) = 9"
      using assms(1,2) that
      by (cases "i = r") (simp_all add: set_cell_def is_board_length is_board_row)
    moreover have "0 \<le> set_cell b r c v ! i ! j \<and> set_cell b r c v ! i ! j \<le> 9" if "j < 9" for j
      using assms is_board_entry[OF assms(1) \<open>i < 9\<close> that] by (simp add: nth_set_cell)
    ultimately show ?thesis by simp
  qed
  then show ?thesis
    using len by (simp add: is_board_def list_all_length)
qed

lemma set_cell_restore:
  assumes "is_board b" "r < 9" "c < 9" "b ! r ! c = 0"
  shows "set_cell (set_cell b r c n) r c 0 = b"
proof -
  have "(b ! r)[c := 0] = b ! r"
    using assms(4) by (metis list_update_id)
  then show ?thesis
    using assms(1,2) by (simp add: set_cell_def is_board_length)
qed

lemma find_empty_Some:
  "find_empty b = Some (r, c) \<Longrightarrow> r < 9 \<and> c < 9 \<and> b ! r ! c = 0"
proof -
  assume "find_empty b = Some (r, c)"
  then have "(r, c) \<in> set board_cells \<and> b ! r ! c = 0"
    unfolding find_empty_def find_Some_iff by (auto simp: in_set_conv_nth)
  then show ?thesis by (simp add: set_board_cells)
qed

lemma find_empty_None:
  "find_empty b = None \<Longrightarrow> r < 9 \<Longrightarrow> c < 9 \<Longrightarrow> b ! r ! c \<noteq> 0"
  unfolding find_empty_def find_None_iff by (auto simp: set_board_cells)

lemma count_zeros_card:
  "count_zeros b = card {p \<in> set board_cells. b ! fst p ! snd p = 0}"
proof -
  have d: "distinct board_cells"
    by (simp add: board_cells_def distinct_product)
  have "distinct (filter (\<lambda>(row, col). b ! row ! col = 0) board_cells)"
    using d by simp
  then have "card (set (filter (\<lambda>(row, col). b ! row ! col = 0) board_cells)) = count_zeros b"
    unfolding count_zeros_def by (rule distinct_card)
  moreover have "set (filter (\<lambda>(row, col). b ! row ! col = 0) board_cells) = {p \<in> set board_cells. b ! fst p ! snd p = 0}"
    by auto
  ultimately show ?thesis by simp
qed

lemma count_zeros_set_cell:
  assumes "is_board b" "r < 9" "c < 9" "b ! r ! c = 0" "n \<noteq> 0"
  shows "count_zeros (set_cell b r c n) < count_zeros b"
proof -
  let ?Z = "{p \<in> set board_cells. b ! fst p ! snd p = 0}"
  let ?Z' = "{p \<in> set board_cells. set_cell b r c n ! fst p ! snd p = 0}"
  have "?Z' \<subseteq> ?Z"
    using assms by (auto simp: nth_set_cell split: if_splits)
  moreover have "(r, c) \<in> ?Z" "(r, c) \<notin> ?Z'"
    using assms by (auto simp: nth_set_cell set_board_cells)
  ultimately have "?Z' \<subset> ?Z" by blast
  then have "card ?Z' < card ?Z"
    by (intro psubset_card_mono) auto
  then show ?thesis by (simp add: count_zeros_card)
qed

lemma is_valid_iff:
  "is_valid b r c n \<longleftrightarrow>
     (\<forall>i < 9. b ! r ! i \<noteq> n) \<and> (\<forall>i < 9. b ! i ! c \<noteq> n) \<and>
     (\<forall>i < 3. \<forall>j < 3. b ! (3 * (r div 3) + i) ! (3 * (c div 3) + j) \<noteq> n)"
  unfolding is_valid_def list_ex_iff Let_def Bex_def by (simp, blast)

subsection \<open>The board_units\<close>

lemma units_distinct: "list_all distinct board_units"
  by code_simp

lemma units_in_cells: "list_all (\<lambda>u. list_all (\<lambda>(r, c). r < 9 \<and> c < 9) u) board_units"
  by code_simp

lemma units_same_unit: "list_all (\<lambda>u. list_all (\<lambda>p. list_all (\<lambda>q. same_unit p q) u) u) board_units"
  by code_simp

lemma is_valid_same_unit:
  assumes "is_valid b r c n" "same_unit (r, c) (r', c')" "r < 9" "c < 9" "r' < 9" "c' < 9"
  shows "b ! r' ! c' \<noteq> n"
proof -
  consider "r' = r" | "c' = c" | "r div 3 = r' div 3" "c div 3 = c' div 3"
    using assms(2) by (auto simp: same_unit_def)
  then show ?thesis
  proof cases
    case 1
    then show ?thesis using assms(1,6) by (simp add: is_valid_iff)
  next
    case 2
    then show ?thesis using assms(1,5) by (simp add: is_valid_iff)
  next
    case 3
    have "r' = 3 * (r div 3) + r' mod 3" "c' = 3 * (c div 3) + c' mod 3"
      using 3 by simp_all
    moreover have "r' mod 3 < 3" "c' mod 3 < 3" by simp_all
    ultimately show ?thesis
      using assms(1) unfolding is_valid_iff by metis
  qed
qed

lemma distinct_filter_map_upd:
  assumes "distinct (filter P (map f u))" "distinct u" "\<forall>p \<in> set u. f p \<noteq> n"
  shows "distinct (filter P (map (f(x := n)) u))"
  using assms
proof (induction u)
  case Nil
  then show ?case by simp
next
  case (Cons a u)
  have sub: "set (map (f(x := n)) u) \<subseteq> insert n (set (map f u))"
    by auto
  show ?case
  proof (cases "a = x")
    case True
    then have "x \<notin> set u"
      using Cons.prems(2) by simp
    then have m: "map (f(x := n)) u = map f u"
      by (auto intro!: map_cong)
    have e: "map (f(x := n)) (a # u) = n # map f u"
      using True by (simp only: list.map m fun_upd_same)
    have "n \<notin> set (map f u)"
      using Cons.prems(3) by auto
    moreover have "distinct (filter P (map f u))"
      using Cons.prems(1) by (auto split: if_splits)
    ultimately show ?thesis
      unfolding e by auto
  next
    case False
    have "f a \<noteq> n" using Cons.prems(3) by simp
    then have "f a \<notin> set (filter P (map (f(x := n)) u))" if "P (f a)"
      using Cons.prems(1) that sub by (auto split: if_splits)
    moreover have "distinct (filter P (map f u))"
      using Cons.prems(1) by (auto split: if_splits)
    then have "distinct (filter P (map (f(x := n)) u))"
      by (intro Cons.IH) (use Cons.prems in auto)
    moreover have "map (f(x := n)) (a # u) = f a # map (f(x := n)) u"
      using False by simp
    ultimately show ?thesis
      by (simp del: fun_upd_apply)
  qed
qed

lemma consistent_set_cell:
  assumes "consistent b" "is_valid b r c n" "is_board b" "r < 9" "c < 9"
  shows "consistent (set_cell b r c n)"
proof -
  let ?f = "\<lambda>(r, c). b ! r ! c"
  let ?f' = "\<lambda>(r', c'). set_cell b r c n ! r' ! c'"
  have "distinct (filter (\<lambda>v. v \<noteq> 0) (map ?f' u))" if u: "u \<in> set board_units" for u
  proof -
    have du: "distinct u"
      using units_distinct u by (simp add: list_all_iff)
    have cu: "\<forall>p \<in> set u. fst p < 9 \<and> snd p < 9"
      using units_in_cells u by (fastforce simp: list_all_iff)
    have su: "\<forall>p \<in> set u. \<forall>q \<in> set u. same_unit p q"
      using units_same_unit u by (simp add: list_all_iff)
    have old: "distinct (filter (\<lambda>v. v \<noteq> 0) (map ?f u))"
      using assms(1) u by (simp add: consistent_def list_all_iff)
    have eq: "map ?f' u = map (?f((r, c) := n)) u"
      using assms(3-5) by (intro map_cong refl) (auto simp: nth_set_cell split: if_splits)
    show ?thesis
    proof (cases "(r, c) \<in> set u")
      case True
      have "\<forall>p \<in> set u. ?f p \<noteq> n"
      proof
        fix p assume p: "p \<in> set u"
        obtain r' c' where rc: "p = (r', c')" by (cases p)
        have s: "same_unit (r, c) (r', c')" using su True p rc by blast
        have "r' < 9" "c' < 9" using cu p rc by auto
        then have "b ! r' ! c' \<noteq> n"
          by (rule is_valid_same_unit[OF assms(2) s assms(4,5)])
        then show "?f p \<noteq> n" using rc by simp
      qed
      then show ?thesis
        unfolding eq using old du by (rule distinct_filter_map_upd[rotated 2])
    next
      case False
      then have "map (?f((r, c) := n)) u = map ?f u"
        by (auto intro!: map_cong)
      with eq have "map ?f' u = map ?f u"
        by (rule trans)
      then show ?thesis using old by (simp only:)
    qed
  qed
  then show ?thesis by (simp add: consistent_def list_all_iff)
qed

lemma filled_consistent_satisfies:
  assumes "filled b" "consistent b"
  shows "satisfies_constraints b"
proof -
  have "distinct (map (\<lambda>(r, c). b ! r ! c) u)" if u: "u \<in> set board_units" for u
  proof -
    have "\<forall>p \<in> set u. p \<in> set board_cells"
      using units_in_cells u by (fastforce simp: list_all_iff set_board_cells)
    then have "\<forall>v \<in> set (map (\<lambda>(r, c). b ! r ! c) u). v \<noteq> 0"
      using assms(1) by (fastforce simp: filled_def list_all_iff)
    then have feq: "filter (\<lambda>v. v \<noteq> 0) (map (\<lambda>(r, c). b ! r ! c) u) = map (\<lambda>(r, c). b ! r ! c) u"
      by (simp add: filter_id_conv)
    have "distinct (filter (\<lambda>v. v \<noteq> 0) (map (\<lambda>(r, c). b ! r ! c) u))"
      using assms(2) u by (simp add: consistent_def list_all_iff)
    then show ?thesis
      unfolding feq .
  qed
  then show ?thesis by (simp add: satisfies_constraints_def list_all_iff)
qed

subsection \<open>The search\<close>

lemma keeps_givens_iff:
  "keeps_givens b b' \<longleftrightarrow> (\<forall>r < 9. \<forall>c < 9. b ! r ! c \<noteq> 0 \<longrightarrow> b' ! r ! c = b ! r ! c)"
  by (auto simp: keeps_givens_def list_all_iff set_board_cells)

lemma filled_iff:
  "filled b \<longleftrightarrow> (\<forall>r < 9. \<forall>c < 9. 1 \<le> b ! r ! c \<and> b ! r ! c \<le> 9)"
  by (auto simp: filled_def list_all_iff set_board_cells)

lemma keeps_givens_set_cell:
  assumes "keeps_givens (set_cell b r c n) b'" "is_board b" "r < 9" "c < 9" "b ! r ! c = 0"
  shows "keeps_givens b b'"
  unfolding keeps_givens_iff
proof (intro allI impI)
  fix r' c' assume h: "r' < 9" "c' < 9" "b ! r' ! c' \<noteq> 0"
  then have ne: "\<not> (r' = r \<and> c' = c)" using assms(5) by auto
  then have "set_cell b r c n ! r' ! c' = b ! r' ! c'"
    using assms(2-4) by (auto simp: nth_set_cell)
  then show "b' ! r' ! c' = b ! r' ! c'"
    using assms(1) h unfolding keeps_givens_iff by metis
qed

lemma try_nums_spec:
  assumes rec: "\<And>b0. is_board b0 \<Longrightarrow> count_zeros b0 < count_zeros b \<Longrightarrow>
                  \<exists>solved b'. rec b0 = Some (solved, b') \<and> solve_post b0 solved b'"
    and b: "is_board b" "r < 9" "c < 9" "b ! r ! c = 0"
    and nums: "\<forall>n \<in> set nums. 1 \<le> n \<and> n \<le> 9"
  shows "\<exists>solved b'. try_nums rec r c nums b = Some (solved, b') \<and> solve_post b solved b'"
  using nums
proof (induction nums)
  case Nil
  show ?case by (intro exI[of _ False] exI[of _ b]) (simp add: solve_post_def)
next
  case (Cons n nums)
  have IH: "\<exists>solved b'. try_nums rec r c nums b = Some (solved, b') \<and> solve_post b solved b'"
    using Cons by simp
  have n: "1 \<le> n" "n \<le> 9" using Cons.prems by simp_all
  show ?case
  proof (cases "is_valid b r c n")
    case False
    then show ?thesis using IH by simp
  next
    case True
    let ?b1 = "set_cell b r c n"
    have b1: "is_board ?b1"
      using b n by (intro is_board_set_cell) auto
    have "count_zeros ?b1 < count_zeros b"
      using b n by (intro count_zeros_set_cell) auto
    then obtain solved b1' where r1: "rec ?b1 = Some (solved, b1')" "solve_post ?b1 solved b1'"
      using rec[OF b1] by blast
    show ?thesis
    proof (cases solved)
      case False
      then have "b1' = ?b1" using r1(2) by (simp add: solve_post_def)
      then have restore: "set_cell b1' r c 0 = b"
        using set_cell_restore[OF b] by simp
      have "try_nums rec r c (n # nums) b = try_nums rec r c nums (set_cell b1' r c 0)"
        using True r1(1) False by simp
      then have "try_nums rec r c (n # nums) b = try_nums rec r c nums b"
        by (simp only: restore)
      then show ?thesis
        using IH by metis
    next
      case s: True
      have post: "is_board b1'" "find_empty b1' = None" "keeps_givens ?b1 b1'"
        "consistent ?b1 \<longrightarrow> consistent b1'"
        using r1(2) s by (simp_all add: solve_post_def)
      have "keeps_givens b b1'"
        using post(3) b by (rule keeps_givens_set_cell)
      moreover have "consistent b \<longrightarrow> consistent b1'"
        using post(4) consistent_set_cell[OF _ True b(1-3)] by blast
      ultimately have "solve_post b True b1'"
        using post(1,2) by (simp add: solve_post_def)
      then show ?thesis
        using True r1(1) s by (intro exI[of _ True] exI[of _ b1']) simp
    qed
  qed
qed

lemma solve_board_spec:
  "is_board b \<Longrightarrow> count_zeros b < depth \<Longrightarrow>
   \<exists>solved b'. solve_board depth b = Some (solved, b') \<and> solve_post b solved b'"
proof (induction depth arbitrary: b)
  case 0
  then show ?case by simp
next
  case (Suc depth)
  show ?case
  proof (cases "find_empty b")
    case None
    have "keeps_givens b b" by (simp add: keeps_givens_iff)
    then have "solve_post b True b"
      using None Suc.prems(1) by (simp add: solve_post_def)
    then show ?thesis using None by (intro exI[of _ True] exI[of _ b]) simp
  next
    case (Some p)
    obtain r c where p: "p = (r, c)" by (cases p)
    have rc: "r < 9" "c < 9" "b ! r ! c = 0"
      using find_empty_Some Some p by blast+
    have "\<exists>solved b'. try_nums (solve_board depth) r c [1..9] b = Some (solved, b') \<and> solve_post b solved b'"
    proof (rule try_nums_spec[OF _ Suc.prems(1) rc])
      fix b0 assume "is_board b0" "count_zeros b0 < count_zeros b"
      then show "\<exists>solved b'. solve_board depth b0 = Some (solved, b') \<and> solve_post b0 solved b'"
        using Suc.IH[of b0] Suc.prems(2) by simp
    next
      show "\<forall>n \<in> set [1..9]. 1 \<le> n \<and> n \<le> (9::int)" by (simp only: set_upto) auto
    qed
    moreover have "solve_board (Suc depth) b = try_nums (solve_board depth) r c [1..9] b"
      by (simp only: solve_board.simps Some p option.case prod.case)
    ultimately show ?thesis by (simp only:)
  qed
qed

lemma is_board_no_empty_filled:
  assumes "is_board b" "find_empty b = None"
  shows "filled b"
  unfolding filled_iff
proof (intro allI impI)
  fix r c :: nat assume h: "r < 9" "c < 9"
  have "b ! r ! c \<noteq> 0" using find_empty_None[OF assms(2) h] .
  moreover have "0 \<le> b ! r ! c \<and> b ! r ! c \<le> 9" using is_board_entry[OF assms(1) h] .
  ultimately show "1 \<le> b ! r ! c \<and> b ! r ! c \<le> 9" by linarith
qed

lemma solve_board_result:
  assumes "is_board board" "count_zeros board < depth"
  shows "\<exists>solved board'. solve_board depth board = Some (solved, board') \<and>
           (\<not> solved \<longrightarrow> board' = board) \<and>
           (solved \<longrightarrow> filled board' \<and> keeps_givens board board' \<and>
              (consistent board \<longrightarrow> satisfies_constraints board'))"
proof -
  obtain solved b' where r: "solve_board depth board = Some (solved, b')" "solve_post board solved b'"
    using solve_board_spec[OF assms] by blast
  have "filled b' \<and> keeps_givens board b' \<and> (consistent board \<longrightarrow> satisfies_constraints b')" if solved
  proof -
    have p: "is_board b'" "find_empty b' = None" "keeps_givens board b'"
      "consistent board \<longrightarrow> consistent b'"
      using r(2) that by (simp_all add: solve_post_def)
    have f: "filled b'" using p(1,2) by (rule is_board_no_empty_filled)
    then show ?thesis
      using p(3,4) filled_consistent_satisfies[OF f] by blast
  qed
  moreover have "\<not> solved \<longrightarrow> b' = board"
    using r(2) by (simp add: solve_post_def)
  ultimately show ?thesis
    using r(1) by blast
qed

section \<open>Facts about the searches\<close>







lemma greedy_loop_pop_goal:
  "frontier \<noteq> [] \<Longrightarrow> pq_pop frontier = ((priority, n, goal), frontier') \<Longrightarrow>
   greedy_loop g start goal (frontier, came_from, counter) visited_order =
     (visited_order, came_from, counter)"
  by simp

lemma greedy_loop_pop_other:
  "frontier \<noteq> [] \<Longrightarrow> pq_pop frontier = ((priority, n, current), frontier') \<Longrightarrow>
   current \<noteq> goal \<Longrightarrow>
   greedy_loop g start goal (frontier, came_from, counter) visited_order =
     greedy_loop g start goal (greedy_expand g goal current (frontier', came_from, counter))
       (if current \<noteq> start then visited_order @ [current] else visited_order)"
  by (cases "greedy_expand g goal current (frontier', came_from, counter)") simp

lemma a_star_loop_pop_goal:
  "frontier \<noteq> [] \<Longrightarrow> pq_pop frontier = ((priority, n, goal), frontier') \<Longrightarrow>
   a_star_loop g start goal (frontier, came_from, cost_so_far, counter) visited_order =
     Some (Inr (visited_order, came_from, counter))"
  by (subst a_star_loop.simps) simp

lemma a_star_loop_pop_other:
  "frontier \<noteq> [] \<Longrightarrow> pq_pop frontier = ((priority, n, current), frontier') \<Longrightarrow>
   current \<noteq> goal \<Longrightarrow>
   a_star_loop g start goal (frontier, came_from, cost_so_far, counter) visited_order =
     (case a_star_expand g goal current (frontier', came_from, cost_so_far, counter) of
        Inl e \<Rightarrow> Some (Inl e)
      | Inr st' \<Rightarrow>
          a_star_loop g start goal st'
            (if current \<noteq> start then visited_order @ [current] else visited_order))"
  by (subst a_star_loop.simps) (simp add: Let_def)

lemma bfs_loop_Main_pop_goal:
  "bfs_loop_Main g start goal (goal # q, visited, prev) = (True, g, prev)"
  by (simp add: mark_visited_def)

lemma bfs_loop_Main_pop_other:
  "pos \<noteq> goal \<Longrightarrow>
   bfs_loop_Main g start goal (pos # q, visited, prev) =
   bfs_loop_Main (mark_visited g start goal pos) start goal
     (expand_Main (mark_visited g start goal pos) pos (q, visited, prev))"
  by (cases "expand_Main (mark_visited g start goal pos) pos (q, visited, prev)") simp


declare bfs_loop.simps [simp del] dfs_loop.simps [simp del] ucs_loop.simps [simp del]
  greedy_loop.simps [simp del] bfs_loop_Main.simps [simp del]

lemma greedy_loop_goal_not_visited:
  "goal \<notin> set visited_order \<Longrightarrow>
   goal \<notin> set (fst (greedy_loop g start goal st visited_order))"
proof (induction g start goal st visited_order rule: greedy_loop.induct)
  case (1 g start goal frontier came_from counter visited_order)
  show ?case
  proof (cases "frontier = []")
    case True
    then show ?thesis using "1.prems" by (simp add: greedy_loop.simps)
  next
    case False
    obtain priority n current frontier' where
      pop: "pq_pop frontier = ((priority, n, current), frontier')"
      by (metis prod.exhaust)
    show ?thesis
    proof (cases "current = goal")
      case True
      have "greedy_loop g start goal (frontier, came_from, counter) visited_order =
            (visited_order, came_from, counter)"
        by (rule greedy_loop_pop_goal[OF False pop[unfolded True]])
      then show ?thesis
        using "1.prems" by simp
    next
      case ne: False
      let ?vo = "if current \<noteq> start \<and> current \<noteq> goal then visited_order @ [current]
                 else visited_order"
      have "goal \<notin> set ?vo" using "1.prems" ne by simp
      then have "goal \<notin> set (fst (greedy_loop g start goal
          (greedy_expand g goal current (frontier', came_from, counter)) ?vo))"
        by (rule "1.IH"[OF False pop[symmetric] refl refl ne])
      moreover have "greedy_loop g start goal (frontier, came_from, counter) visited_order =
          greedy_loop g start goal (greedy_expand g goal current (frontier', came_from, counter)) ?vo"
        unfolding greedy_loop_pop_other[OF False pop ne] using ne by simp
      ultimately show ?thesis
        by simp
    qed
  qed
qed

lemma a_star_loop_goal_not_visited_aux:
  "a_star_loop g start goal st visited_order = Some y \<Longrightarrow>
   (\<forall>visited_order' came_from' counter'.
      y = Inr (visited_order', came_from', counter') \<longrightarrow> goal \<notin> set visited_order \<longrightarrow>
      goal \<notin> set visited_order')"
proof (induction rule: a_star_loop.raw_induct[rotated 1, consumes 1, case_names step])
  case (step a_star_loop g start goal st visited_order y)
  note 1 = step
  show ?case
  proof (cases "fst st = [] \<or> snd (snd (fst (pq_pop (fst st)))) = goal")
    case True
    then show ?thesis using 1(2) by (auto simp: Let_def split: if_splits)
  next
    case False
    let ?current = "snd (snd (fst (pq_pop (fst st))))"
    let ?vo = "if ?current \<noteq> start \<and> ?current \<noteq> goal then visited_order @ [?current]
               else visited_order"
    show ?thesis
    proof (intro allI impI)
      fix visited_order' came_from' counter'
      assume y: "y = Inr (visited_order', came_from', counter')"
        and g: "goal \<notin> set visited_order"
      obtain st' where r: "a_star_loop g start goal st' ?vo = Some y"
        using 1(2) False y by (auto simp: Let_def split: if_splits sum.splits)
      have "goal \<notin> set ?vo" using g False by auto
      then show "goal \<notin> set visited_order'"
        using 1(1)[OF r] y by blast
    qed
  qed
qed

lemma a_star_loop_goal_not_visited:
  "a_star_loop g start goal st visited_order = Some (Inr (visited_order', came_from', counter')) \<Longrightarrow>
   goal \<notin> set visited_order \<Longrightarrow> goal \<notin> set visited_order'"
  using a_star_loop_goal_not_visited_aux by blast

subsection \<open>The goal is left out of the visited cells\<close>

lemma a_star_search_goal_not_visited:
  "a_star_search g counter start goal = Some (Inr (visited_order, came_from, counter')) \<Longrightarrow>
   goal \<notin> set visited_order"
  unfolding a_star_search_def by (erule a_star_loop_goal_not_visited) simp

lemma greedy_search_goal_not_visited:
  "greedy_best_first_search g counter start goal = (visited_order, came_from, counter') \<Longrightarrow>
   goal \<notin> set visited_order"
  unfolding greedy_best_first_search_def
  using greedy_loop_goal_not_visited[of goal "[]" g start "([(0, counter, start)], [start \<mapsto> None], counter + 1)"]
  by simp

lemma steps_start_animation:
  "start_animation counter (messages, app) = (messages', app') \<Longrightarrow> steps app' = steps app"
  by (auto simp: start_animation_def Let_def split: if_splits)

lemma show_result_steps:
  assumes "show_result app start goal (visited_order, came_from, counter) = Some (messages, app')"
    and "goal \<notin> set visited_order"
  shows "goal \<notin> set (steps app')"
proof (cases "goal \<in> dom came_from")
  case True
  then obtain p where "start_animation counter
      ([], app\<lparr>steps := remove1 goal visited_order, app_path := p\<rparr>) = (messages, app')"
    using assms(1) by (auto simp: show_result_def)
  then have "steps app' = remove1 goal visited_order"
    using steps_start_animation by fastforce
  then show ?thesis
    using assms(2) by (simp add: remove1_idem)
next
  case False
  then have "start_animation counter
      ([NoPathFound], app\<lparr>steps := visited_order, app_path := []\<rparr>) = (messages, app')"
    using assms(1) by (auto simp: show_result_def)
  then have "steps app' = visited_order"
    using steps_start_animation by fastforce
  then show ?thesis
    using assms(2) by simp
qed

lemma run_algorithm_steps_exclude_goal:
  assumes "grid_start app = Some start" "grid_goal app = Some goal"
    and "run_algorithm algo app = Some (Inr (messages, app'))"
  shows "goal \<notin> set (steps app')"
proof -
  let ?app = "(clear_visualization_steps app)\<lparr>algorithm_running := True, timer_active := False\<rparr>"
  show ?thesis
  proof (cases algo)
    case AStar
    then obtain r where r: "a_star_search ?app (pq_counter ?app) start goal = Some (Inr r)"
      "show_result ?app start goal r = Some (messages, app')"
      using assms by (auto simp: run_algorithm_def Let_def split: option.splits sum.splits)
    obtain vo cf k where rr: "r = (vo, cf, k)" by (cases r)
    show ?thesis
      using show_result_steps[OF r(2)[unfolded rr]] a_star_search_goal_not_visited[OF r(1)[unfolded rr]]
      by simp
  next
    case GreedyBestFirst
    obtain vo cf k where rr: "greedy_best_first_search ?app (pq_counter ?app) start goal = (vo, cf, k)"
      by (cases "greedy_best_first_search ?app (pq_counter ?app) start goal")
    have "show_result ?app start goal (vo, cf, k) = Some (messages, app')"
      using assms GreedyBestFirst rr by (auto simp: run_algorithm_def Let_def)
    then show ?thesis
      using show_result_steps greedy_search_goal_not_visited[OF rr] by blast
  next
    case OtherAlgorithm
    then have "app' = ?app\<lparr>algorithm_running := False\<rparr>"
      using assms by (auto simp: run_algorithm_def Let_def)
    then show ?thesis
      by (simp add: clear_visualization_steps_def)
  qed
qed

subsection \<open>The goal is not painted by the solver of Main.py\<close>

lemma state_update_cell_other:
  assumes "0 \<le> fst pos" "0 \<le> snd pos" "0 \<le> fst pos'" "0 \<le> snd pos'" "pos \<noteq> pos'"
  shows "state (update_cell g pos v) ! nat (fst pos') ! nat (snd pos') =
         state g ! nat (fst pos') ! nat (snd pos')"
proof -
  obtain r c where p: "pos = (r, c)" by (cases pos)
  obtain r' c' where p': "pos' = (r', c')" by (cases pos')
  have s: "state (update_cell g pos v) = (state g)[nat r := (state g ! nat r)[nat c := v]]"
    by (simp add: update_cell_def p)
  show ?thesis
  proof (cases "nat r = nat r'")
    case False
    then show ?thesis
      unfolding s p' by simp
  next
    case True
    then have "r = r'" using assms(1,3) p p' by simp
    then have "nat c \<noteq> nat c'" using assms(2,4,5) p p' by auto
    then show ?thesis
      unfolding s p' using True
      by (cases "nat r' < length (state g)") (simp_all add: list_update_beyond not_less)
  qed
qed

lemma grid_cells_nonneg: "pos \<in> grid_cells g \<Longrightarrow> 0 \<le> fst pos \<and> 0 \<le> snd pos"
  by (cases pos) (simp add: grid_cells_def)

lemma state_mark_visited_goal:
  assumes "pos \<in> grid_cells g" "goal \<in> grid_cells g"
  shows "state (mark_visited g start goal pos) ! nat (fst goal) ! nat (snd goal) =
         state g ! nat (fst goal) ! nat (snd goal)"
  using assms grid_cells_nonneg[OF assms(1)] grid_cells_nonneg[OF assms(2)]
  by (simp add: mark_visited_def state_update_cell_other)

lemma get_neighbors_mark_visited_in: "set (get_neighbors (mark_visited g start goal pos) c) \<subseteq> grid_cells g"
  using get_neighbors_in_grid[of "mark_visited g start goal pos" c] by simp

lemma bfs_loop_Main_goal_cell:
  "set q \<subseteq> grid_cells g \<Longrightarrow> goal \<in> grid_cells g \<Longrightarrow>
   bfs_loop_Main g start goal (q, visited, prev) = (found, g', prev') \<Longrightarrow>
   state g' ! nat (fst goal) ! nat (snd goal) = state g ! nat (fst goal) ! nat (snd goal)"
proof (induction g start goal "(q, visited, prev)" arbitrary: q visited prev rule: bfs_loop_Main.induct)
  case (1 g start goal q visited prev)
  show ?case
  proof (cases q)
    case Nil
    then show ?thesis using "1.prems" by (simp add: bfs_loop_Main.simps)
  next
    case (Cons pos q')
    let ?g = "mark_visited g start goal pos"
    have pos: "pos \<in> grid_cells g" using "1.prems"(1) Cons by simp
    have st: "state ?g ! nat (fst goal) ! nat (snd goal) = state g ! nat (fst goal) ! nat (snd goal)"
      using pos "1.prems"(2) by (rule state_mark_visited_goal)
    show ?thesis
    proof (cases "pos = goal")
      case True
      then show ?thesis
        using "1.prems"(3) Cons by (simp add: bfs_loop_Main_pop_goal)
    next
      case False
      obtain q'' v' p' where e: "expand_Main ?g pos (q', visited, prev) = (q'', v', p')"
        by (cases "expand_Main ?g pos (q', visited, prev)")
      have q'': "q'' = q' @ filter (\<lambda>n. n \<notin> visited) (get_neighbors ?g pos)"
        using e by (simp add: expand_Main_eq expand_eq)
      have sub: "set q'' \<subseteq> grid_cells ?g"
        using "1.prems"(1) Cons get_neighbors_mark_visited_in[of g start goal pos pos]
        unfolding q'' by auto
      have r: "bfs_loop_Main ?g start goal (q'', v', p') = (found, g', prev')"
        using "1.prems"(3) Cons False e by (simp add: bfs_loop_Main_pop_other)
      have "state g' ! nat (fst goal) ! nat (snd goal) = state ?g ! nat (fst goal) ! nat (snd goal)"
        using "1.hyps"[OF Cons False e sub _ r] "1.prems"(2) by simp
      then show ?thesis
        using st by simp
    qed
  qed
qed

subsection \<open>Recorded predecessors\<close>










subsection \<open>Missing endpoints\<close>

lemma solve_missing_endpoints:
  assumes "start_pos m = None \<or> goal_pos m = None"
  shows "solve_bfs m = Some (Inr MissingEndpoints)"
    and "solve_dfs m = Some (Inr MissingEndpoints)"
    and "solve_ucs m = Some (Inr MissingEndpoints)"
    and "solve_bfs_Main m = Some (Inr (MissingEndpoints, m))"
  using assms
  by (auto simp: solve_bfs_def solve_dfs_def solve_ucs_def solve_bfs_Main_def split: option.splits)

lemma run_algorithm_missing_endpoints:
  assumes "grid_start app = None \<or> grid_goal app = None"
  shows "run_algorithm algo app = Some (Inr ([MissingEndpoints], app))"
  using assms by (auto simp: run_algorithm_def split: option.splits)

section \<open>Claims about path reconstruction\<close>

text \<open>
  C9, as amended. Both walks follow the predecessor links from the goal back to the start
  and give the cells in start-to-goal order; what follows presupposes that the chain of
  links from the goal is finite. Here \<open>p\<close> is that chain, start excluded, ending in the
  goal.

  \<^item> \<open>reconstruct_path\<close> of Main (2).py returns the cells walked, the start itself left out
    (the empty list when the goal is the start). When a predecessor is missing before the
    start is reached, the walk stops there and the partial path walked so far is returned
    as an ordinary result: nothing is signalled.

  \<^item> \<open>draw_path_with_steps\<close> of AI3.py builds the path with the start included (the start
    alone when the goal is the start). When a predecessor is missing before the start is
    reached, the lookup \<open>parent[current]\<close> raises \<open>KeyError\<close> and no path, partial or
    not, is produced.
\<close>

theorem path_walks_follow_predecessor_chain:
  assumes "p \<noteq> []" and "last p = goal" and "start \<notin> set p"
  shows "reconstruct_path start start came_from = Some [] \<and>
         (links came_from p \<and> dict_get came_from (hd p) = Some start \<longrightarrow>
            reconstruct_path start goal came_from = Some p) \<and>
         (links came_from p \<and> dict_get came_from (hd p) = None \<longrightarrow>
            reconstruct_path start goal came_from = Some p) \<and>
         draw_path parent start start = Some (Inr [start]) \<and>
         (parent_links parent p \<and> parent (hd p) = Some start \<longrightarrow>
            draw_path parent start goal = Some (Inr (start # p))) \<and>
         (parent_links parent p \<and> parent (hd p) = None \<longrightarrow>
            draw_path parent start goal = Some (Inl KeyError))"
  using assms
  by (simp add: reconstruct_path_same reconstruct_path_chain draw_path_same draw_path_chain
      draw_path_broken)

text \<open>
  The theorem at work on the corridor (0, 0), (0, 1), (0, 2): with every link present, and
  with the link of (0, 1) missing.
\<close>

theorem path_walks_follow_predecessor_chain_witness:
  "reconstruct_path (0, 0) (0, 2)
     [(0, 0) \<mapsto> None, (0, 1) \<mapsto> Some (0, 0), (0, 2) \<mapsto> Some (0, 1)]
     = Some [(0, 1), (0, 2)] \<and>
   reconstruct_path (0, 0) (0, 2) [(0, 0) \<mapsto> None, (0, 2) \<mapsto> Some (0, 1)]
     = Some [(0, 1), (0, 2)] \<and>
   draw_path [(0, 1) \<mapsto> (0, 0), (0, 2) \<mapsto> (0, 1)] (0, 0) (0, 2)
     = Some (Inr [(0, 0), (0, 1), (0, 2)]) \<and>
   draw_path [(0, 2) \<mapsto> (0, 1)] (0, 0) (0, 2) = Some (Inl KeyError)"
  using path_walks_follow_predecessor_chain
    [of "[(0, 1), (0, 2)]" "(0, 2)" "(0, 0)"
        "[(0, 0) \<mapsto> None, (0, 1) \<mapsto> Some (0, 0), (0, 2) \<mapsto> Some (0, 1)]"
        "[(0, 1) \<mapsto> (0, 0), (0, 2) \<mapsto> (0, 1)]"]
    path_walks_follow_predecessor_chain
    [of "[(0, 1), (0, 2)]" "(0, 2)" "(0, 0)"
        "[(0, 0) \<mapsto> None, (0, 2) \<mapsto> Some (0, 1)]"
        "[(0, 2) \<mapsto> (0, 1)]"]
  by (simp add: dict_get_def)

text \<open>
  C9 as stated fails for \<open>reconstruct_path\<close>: with the predecessor of (0, 1) missing, the
  walk from the goal (0, 2) towards the start (0, 0) returns the partial path, not an
  error.
\<close>

theorem reconstruct_path_partial_counterexample:
  "reconstruct_path (0, 0) (0, 2) [(0, 2) \<mapsto> Some (0, 1)] = Some [(0, 1), (0, 2)]"
  by (simp add: reconstruct_path_def reconstruct_loop.simps dict_get_def)

section \<open>Claims about the Sudoku solver\<close>

text \<open>
  C10, as amended. For every 9 by 9 board with entries from 0 to 9, \<open>solve_board\<close>
  returns (a recursion depth above the number of empty cells is enough). If it returns
  \<open>False\<close>, the board is exactly as it was at the call. If it returns \<open>True\<close>, the
  board is completely filled with digits from 1 to 9 and every cell that was not empty
  keeps its value; the filled board satisfies the row, column and box constraints provided
  the entries at the call did not already conflict with one another.
\<close>

theorem solve_board_restores_or_solves:
  assumes "is_board board" and "count_zeros board < depth"
  shows "\<exists>solved board'. solve_board depth board = Some (solved, board') \<and>
           (\<not> solved \<longrightarrow> board' = board) \<and>
           (solved \<longrightarrow> filled board' \<and> keeps_givens board board' \<and>
              (consistent board \<longrightarrow> satisfies_constraints board'))"
  using assms by (rule solve_board_result)

text \<open>
  The theorem at work: the puzzle with two empty cells is solved, and the board whose
  empty cell admits no digit comes back unchanged with the answer \<open>False\<close>.
\<close>

theorem solve_board_restores_or_solves_witness:
  "is_board puzzle \<and> count_zeros puzzle < 3 \<and> consistent puzzle \<and>
   (\<exists>board'. solve_board 3 puzzle = Some (True, board') \<and> filled board' \<and>
      keeps_givens puzzle board' \<and> satisfies_constraints board') \<and>
   is_board stuck_puzzle \<and> count_zeros stuck_puzzle < 4 \<and> consistent stuck_puzzle \<and>
   solve_board 4 stuck_puzzle = Some (False, stuck_puzzle)"
proof -
  have h1: "is_board puzzle" by code_simp
  have h2: "count_zeros puzzle < 3" by code_simp
  have h3: "consistent puzzle" by code_simp
  have s: "fst (the (solve_board 3 puzzle))"
    by code_simp
  obtain solved board' where r: "solve_board 3 puzzle = Some (solved, board')"
    "solved \<longrightarrow> filled board' \<and> keeps_givens puzzle board' \<and>
       (consistent puzzle \<longrightarrow> satisfies_constraints board')"
    using solve_board_restores_or_solves[OF h1 h2] by blast
  have "solved" using s r(1) by simp
  then have "solve_board 3 puzzle = Some (True, board')" "filled board'"
    "keeps_givens puzzle board'" "satisfies_constraints board'"
    using r h3 by simp_all
  then have a: "\<exists>board'. solve_board 3 puzzle = Some (True, board') \<and> filled board' \<and>
      keeps_givens puzzle board' \<and> satisfies_constraints board'"
    by blast
  have k1: "is_board stuck_puzzle" by code_simp
  have k2: "count_zeros stuck_puzzle < 4" by code_simp
  have k3: "consistent stuck_puzzle" by code_simp
  have t: "\<not> fst (the (solve_board 4 stuck_puzzle))"
    by code_simp
  obtain solved2 board2 where r2: "solve_board 4 stuck_puzzle = Some (solved2, board2)"
    "\<not> solved2 \<longrightarrow> board2 = stuck_puzzle"
    using solve_board_restores_or_solves[OF k1 k2] by blast
  have "\<not> solved2" using t r2(1) by simp
  then have b: "solve_board 4 stuck_puzzle = Some (False, stuck_puzzle)"
    using r2 by simp
  show ?thesis
    using h1 h2 h3 a k1 k2 k3 b by blast
qed

text \<open>
  C10 as stated fails on a board whose entries conflict: \<open>get_board\<close> accepts it, the
  solver fills the two empty cells and answers \<open>True\<close>, and the first row of the result
  holds the digit 3 twice.
\<close>

theorem solve_board_conflicting_counterexample:
  "is_board conflicting_puzzle \<and>
   solve_board 3 conflicting_puzzle =
     Some (True, set_cell (set_cell conflicting_puzzle 8 7 7) 8 8 9) \<and>
   \<not> satisfies_constraints (set_cell (set_cell conflicting_puzzle 8 7 7) 8 8 9)"
proof -
  have 1: "is_board conflicting_puzzle" by code_simp
  have 2: "solve_board 3 conflicting_puzzle =
     Some (True, set_cell (set_cell conflicting_puzzle 8 7 7) 8 8 9)" by code_simp
  have 3: "\<not> satisfies_constraints (set_cell (set_cell conflicting_puzzle 8 7 7) 8 8 9)"
    by code_simp
  show ?thesis using 1 2 3 by blast
qed

section \<open>Claims about the searches\<close>

text \<open>
  C6. When the start or the goal is unset, every search reports \<open>MissingEndpoints\<close> and
  returns at once: the answer does not depend on the grid, and the solver or the
  application is the same after the call (the searches of AI3.py assign to no attribute
  of the solver in any case).
\<close>

theorem missing_endpoints_reported_without_search:
  assumes "start_pos m = None \<or> goal_pos m = None"
    and "grid_start app = None \<or> grid_goal app = None"
  shows "solve_bfs m = Some (Inr MissingEndpoints) \<and>
         solve_dfs m = Some (Inr MissingEndpoints) \<and>
         solve_ucs m = Some (Inr MissingEndpoints) \<and>
         solve_bfs_Main m = Some (Inr (MissingEndpoints, m)) \<and>
         run_algorithm algo app = Some (Inr ([MissingEndpoints], app))"
  using solve_missing_endpoints[OF assms(1)] run_algorithm_missing_endpoints[OF assms(2)]
  by simp

theorem missing_endpoints_reported_without_search_witness:
  "solve_bfs (demo_maze\<lparr>goal_pos := None\<rparr>) = Some (Inr MissingEndpoints) \<and>
   solve_dfs (demo_maze\<lparr>goal_pos := None\<rparr>) = Some (Inr MissingEndpoints) \<and>
   solve_ucs (demo_maze\<lparr>goal_pos := None\<rparr>) = Some (Inr MissingEndpoints) \<and>
   solve_bfs_Main (demo_maze\<lparr>goal_pos := None\<rparr>) =
     Some (Inr (MissingEndpoints, demo_maze\<lparr>goal_pos := None\<rparr>)) \<and>
   run_algorithm AStar (demo_app\<lparr>grid_start := None\<rparr>) =
     Some (Inr ([MissingEndpoints], demo_app\<lparr>grid_start := None\<rparr>))"
  using missing_endpoints_reported_without_search
    [of "demo_maze\<lparr>goal_pos := None\<rparr>" "demo_app\<lparr>grid_start := None\<rparr>" AStar]
  by simp




end
